theory Spec2Isabelle
  imports Complex_Main "HOL-Library.Sublist"
begin

section \<open>Text primitives of the table normalizer (src/app.py)\<close>

text \<open>
  The normalizer of \<^verbatim>\<open>src/app.py\<close> is \<^verbatim>\<open>clean_colname\<close>,
  \<^verbatim>\<open>clean_dataframe\<close> and \<^verbatim>\<open>load_csv\<close>. They are written against
  Python's \<^verbatim>\<open>str\<close>, \<^verbatim>\<open>re\<close> and the pandas 1.x API (the source names
  \<^verbatim>\<open>pd.Int64Index\<close>). The embedding fixes the following reading of that API.

  \<^item> A Python string is a \<open>string\<close>: a list of 8-bit characters read as the code points
    0 to 255. On these code points \<^verbatim>\<open>\d\<close> is exactly the ASCII digits,
    \<^verbatim>\<open>\s\<close> and \<^verbatim>\<open>str.strip\<close> agree on twelve whitespace characters, and
    \<^verbatim>\<open>re.IGNORECASE\<close> relates the ASCII letters of the index pattern only to their
    other case.
  \<^item> An \<^verbatim>\<open>int64\<close> cell is an \<open>int\<close> from \<open>INT64_MIN\<close> to \<open>INT64_MAX\<close>, a
    \<^verbatim>\<open>uint64\<close> cell a \<open>nat\<close> up to \<open>UINT64_MAX\<close>; a \<^verbatim>\<open>float64\<close> cell is the
    rational number the double holds, an infinity, or the null \<^verbatim>\<open>NaN\<close>. What the
    numeric library computes on doubles is a parameter of the functions that need it, a
    \<open>numeric_lib\<close>: the double its parser returns for a text (\<open>strtod\<close>), the text of
    a finite float (\<open>float_repr\<close>), and the \<^verbatim>\<open>int64\<close> that a conversion out of range
    gives on the platform (\<open>cast_overflow\<close>). Every theorem with a library \<open>L\<close>
    holds for each choice of it.
  \<^item> A frame is the list of its labelled columns, in order, and its row index. Indexing a
    frame with a label that several columns carry gives a frame, not a series, and a
    frame has no attribute \<^verbatim>\<open>dtype\<close>.
\<close>

definition isspace :: "char \<Rightarrow> bool" where
  \<comment> \<open>\<^verbatim>\<open>str.isspace\<close> and \<^verbatim>\<open>\s\<close> on code points below 256: TAB, LF, VT, FF, CR,
      FS, GS, RS, US, SPACE, NEL, NBSP.\<close>
  "isspace c \<longleftrightarrow> c \<in> set [CHR 0x09, CHR 0x0A, CHR 0x0B, CHR 0x0C, CHR 0x0D,
     CHR 0x1C, CHR 0x1D, CHR 0x1E, CHR 0x1F, CHR 0x20, CHR 0x85, CHR 0xA0]"

definition isdigit :: "char \<Rightarrow> bool" where
  \<comment> \<open>\<^verbatim>\<open>\d\<close> on code points below 256.\<close>
  "isdigit c \<longleftrightarrow> c \<in> set ''0123456789''"

function str_replace :: "string \<Rightarrow> string \<Rightarrow> string \<Rightarrow> string" where
  \<comment> \<open>\<^verbatim>\<open>s.replace(old, new)\<close>: every non-overlapping occurrence, leftmost first. With an
      empty \<open>old\<close> Python inserts \<open>new\<close> before every character and at the end.\<close>
  "str_replace old new s =
     (if old = [] then new @ concat (map (\<lambda>c. c # new) s)
      else if s = [] then []
      else if prefix old s then new @ str_replace old new (drop (length old) s)
      else hd s # str_replace old new (tl s))"
  by pat_completeness auto
termination
  by (relation "measure (\<lambda>(old, new, s). length s)") auto

declare str_replace.simps [simp del]

function collapse_ws :: "string \<Rightarrow> string" where
  \<comment> \<open>\<^verbatim>\<open>re.sub(r"\s+", " ", s)\<close>: each maximal run of whitespace becomes one space.\<close>
  "collapse_ws [] = []"
| "collapse_ws (c # cs) =
     (if isspace c then CHR 0x20 # collapse_ws (dropWhile isspace cs)
      else c # collapse_ws cs)"
  by pat_completeness auto
termination
  by (relation "measure length") (auto simp: length_dropWhile_le less_Suc_eq_le)

definition strip :: "string \<Rightarrow> string" where
  \<comment> \<open>\<^verbatim>\<open>s.strip()\<close>\<close>
  "strip s = rev (dropWhile isspace (rev (dropWhile isspace s)))"

subsection \<open>clean_colname\<close>

definition dash_artifact :: string where
  \<comment> \<open>the three characters E2 88 92 of the source's first artifact literal: the UTF-8
      bytes of a minus sign, each decoded as one character\<close>
  "dash_artifact = [CHR 0xE2, CHR 0x88, CHR 0x92]"

definition clean_colname :: "string \<Rightarrow> string" where
  \<comment> \<open>The \<^verbatim>\<open>pd.isna(s)\<close> guard is for a label that is not a string; \<^verbatim>\<open>read_csv\<close>
      labels every column with a string.\<close>
  "clean_colname s0 =
     (let s = str_replace [CHR 0x0A] '' '' s0;
          s = str_replace dash_artifact ''-'' s;
          s = str_replace (dash_artifact @ ''15'') ''-15'' s;
          s = str_replace ''Nov-15'' ''11-15'' s;
          s = str_replace ''?'' ''-'' s;
          s = collapse_ws s
      in strip s)"

section \<open>Tables\<close>

text \<open>
  A column as \<^verbatim>\<open>pd.read_csv(..., low_memory=False)\<close> and \<^verbatim>\<open>pd.to_numeric\<close> produce
  it: of dtype \<^verbatim>\<open>object\<close> holding strings and \<^verbatim>\<open>NaN\<close> (text), of dtype
  \<^verbatim>\<open>int64\<close>, of dtype \<^verbatim>\<open>uint64\<close>, or of dtype \<^verbatim>\<open>float64\<close> with \<^verbatim>\<open>NaN\<close> for a
  missing value. The columns of a frame are kept in order with their labels, which may
  repeat. Text and numbers are the cells the specification gives a raw table; columns of
  other dtypes are left out.
\<close>

datatype fval = Finite rat | PosInf | NegInf

datatype column =
    ObjectCol "string option list"
  | Int64Col "int list"
  | UInt64Col "nat list"
  | Float64Col "fval option list"

datatype index = RangeIndex int int | Int64Index "int list"

record dataframe =
  columns :: "(string \<times> column) list"
  index :: index

datatype error = AttributeError | UnicodeDecodeError | EmptyDataError | ParserError

record numeric_lib =
  strtod :: "string \<Rightarrow> fval"
  float_repr :: "rat \<Rightarrow> string"
  cast_overflow :: "fval option \<Rightarrow> int"

definition INT64_MIN :: int where
  "INT64_MIN = - (2 ^ 63)"

definition INT64_MAX :: int where
  "INT64_MAX = 2 ^ 63 - 1"

definition UINT64_MAX :: int where
  "UINT64_MAX = 2 ^ 64 - 1"

fun col_len :: "column \<Rightarrow> nat" where
  "col_len (ObjectCol xs) = length xs"
| "col_len (Int64Col xs) = length xs"
| "col_len (UInt64Col xs) = length xs"
| "col_len (Float64Col xs) = length xs"

fun index_len :: "index \<Rightarrow> nat" where
  "index_len (RangeIndex a b) = nat (b - a)"
| "index_len (Int64Index xs) = length xs"

fun index_values :: "index \<Rightarrow> int list" where
  "index_values (RangeIndex a b) = [a..b - 1]"
| "index_values (Int64Index xs) = xs"

definition nrows :: "dataframe \<Rightarrow> nat" where
  \<comment> \<open>\<^verbatim>\<open>len(df)\<close>\<close>
  "nrows df = index_len (index df)"

definition df_empty :: "dataframe \<Rightarrow> bool" where
  \<comment> \<open>\<^verbatim>\<open>df.empty\<close>: some axis has length 0\<close>
  "df_empty df \<longleftrightarrow> columns df = [] \<or> nrows df = 0"

definition empty_DataFrame :: dataframe where
  \<comment> \<open>\<^verbatim>\<open>pd.DataFrame()\<close>: no columns and no rows\<close>
  "empty_DataFrame = \<lparr>columns = [], index = RangeIndex 0 0\<rparr>"

definition wf_df :: "dataframe \<Rightarrow> bool" where
  \<comment> \<open>every column has one cell per row\<close>
  "wf_df df \<longleftrightarrow> list_all (\<lambda>(l, c). col_len c = nrows df) (columns df)"

datatype getitem_result = Series column | Frame "column list"

definition getitem :: "(string \<times> column) list \<Rightarrow> string \<Rightarrow> getitem_result" where
  \<comment> \<open>\<^verbatim>\<open>df[col]\<close> for a label among the columns: the column when the label occurs once, a
      sub-frame of all the columns carrying it when it repeats.\<close>
  "getitem cols l =
     (case filter (\<lambda>(l', c). l' = l) cols of
        [(l', c)] \<Rightarrow> Series c
      | hits \<Rightarrow> Frame (map snd hits))"

definition setitem :: "(string \<times> column) list \<Rightarrow> string \<Rightarrow> column \<Rightarrow> (string \<times> column) list" where
  \<comment> \<open>\<^verbatim>\<open>df[col] = series\<close> for a label that is present\<close>
  "setitem cols l v = map (\<lambda>(l', c). if l' = l then (l', v) else (l', c)) cols"

section \<open>Numeric coercion\<close>

definition str_of_cell :: "string option \<Rightarrow> string" where
  \<comment> \<open>\<^verbatim>\<open>astype(str)\<close> on an object cell: \<^verbatim>\<open>NaN\<close> is rendered as the text nan\<close>
  "str_of_cell x = (case x of None \<Rightarrow> ''nan'' | Some s \<Rightarrow> s)"

definition strip_for_match :: "string \<Rightarrow> string" where
  \<comment> \<open>\<^verbatim>\<open>re.sub(r'[^\d\.\-]', '', x)\<close>\<close>
  "strip_for_match x = filter (\<lambda>c. isdigit c \<or> c = CHR ''.'' \<or> c = CHR ''-'') x"

definition re_numeric :: "string \<Rightarrow> bool" where
  \<comment> \<open>\<^verbatim>\<open>re.match(r"^-?\d+(\.\d+)?$", x)\<close>; \<^verbatim>\<open>$\<close> also matches before one final line
      feed.\<close>
  "re_numeric x =
     (let t = (case x of [] \<Rightarrow> x | c # r \<Rightarrow> if c = CHR ''-'' then r else x);
          ip = takeWhile isdigit t;
          r1 = dropWhile isdigit t;
          at_end = (\<lambda>r. r = [] \<or> r = [CHR 0x0A])
      in ip \<noteq> [] \<and>
         (at_end r1 \<or>
          (case r1 of [] \<Rightarrow> False
           | d # r2 \<Rightarrow> d = CHR ''.'' \<and> takeWhile isdigit r2 \<noteq> [] \<and> at_end (dropWhile isdigit r2))))"

definition digit_val :: "char \<Rightarrow> nat" where
  "digit_val c = of_char c - 48"

definition nat_of_digits :: "string \<Rightarrow> nat" where
  "nat_of_digits ds = foldl (\<lambda>n c. 10 * n + digit_val c) 0 ds"

datatype number = IntVal int | FloatVal rat

definition to_double :: "string \<Rightarrow> number option" where
  \<comment> \<open>How \<^verbatim>\<open>pd.to_numeric\<close> reads one string made of digits, signs and points (the only
      strings the normalizer hands it): an optional sign, digits, optionally a point and
      digits, with at least one digit in all; a string with no point is an integer.
      \<open>None\<close> is a string it cannot read.\<close>
  "to_double s =
     (let neg = (case s of [] \<Rightarrow> False | c # r \<Rightarrow> c = CHR ''-'');
          t = (case s of [] \<Rightarrow> s | c # r \<Rightarrow> if c = CHR ''-'' \<or> c = CHR ''+'' then r else s);
          ip = takeWhile isdigit t;
          r1 = dropWhile isdigit t
      in case r1 of
           [] \<Rightarrow> if ip = [] then None
                else Some (IntVal ((if neg then - 1 else 1) * int (nat_of_digits ip)))
         | d # r2 \<Rightarrow>
             (let fp = takeWhile isdigit r2; r3 = dropWhile isdigit r2
              in if d \<noteq> CHR ''.'' \<or> r3 \<noteq> [] \<or> (ip = [] \<and> fp = []) then None
                 else Some (FloatVal ((if neg then - 1 else 1) *
                        (of_nat (nat_of_digits ip) + of_nat (nat_of_digits fp) / 10 ^ length fp)))))"

fun is_int_val :: "number option \<Rightarrow> bool" where
  "is_int_val (Some (IntVal i)) = True"
| "is_int_val _ = False"

fun int_of_val :: "number option \<Rightarrow> int" where
  "int_of_val (Some (IntVal i)) = i"
| "int_of_val _ = 0"

fun rat_of_number :: "number \<Rightarrow> rat" where
  "rat_of_number (IntVal i) = of_int i"
| "rat_of_number (FloatVal q) = q"

definition to_numeric :: "numeric_lib \<Rightarrow> string list \<Rightarrow> column" where
  \<comment> \<open>\<^verbatim>\<open>pd.to_numeric(series, errors="coerce")\<close> on strings of digits, signs and points.
      When every string reads as an integer between \<open>INT64_MIN\<close> and \<open>UINT64_MAX\<close>, and
      not both a negative one and one above \<open>INT64_MAX\<close> occur, the result holds the
      integers: as \<^verbatim>\<open>uint64\<close> when one is above \<open>INT64_MAX\<close>, else as \<^verbatim>\<open>int64\<close>.
      Otherwise it is \<^verbatim>\<open>float64\<close>: \<^verbatim>\<open>NaN\<close> for each string that cannot be read, and
      for every other string the double that the parser of the library returns.\<close>
  "to_numeric L xs =
     (let ps = map to_double xs;
          ints = map int_of_val ps;
          all_int = (list_all is_int_val ps
                     \<and> list_all (\<lambda>k. INT64_MIN \<le> k \<and> k \<le> UINT64_MAX) ints);
          uint_seen = list_ex (\<lambda>k. INT64_MAX < k) ints;
          sint_seen = list_ex (\<lambda>k. k < 0) ints
      in if all_int \<and> \<not> (uint_seen \<and> sint_seen)
         then (if uint_seen then UInt64Col (map nat ints) else Int64Col ints)
         else Float64Col
                (map (\<lambda>x. case to_double x of None \<Rightarrow> None | Some v \<Rightarrow> Some (strtod L x)) xs))"

definition cleaned_cell :: "string option \<Rightarrow> string" where
  \<comment> \<open>one cell of \<^verbatim>\<open>cleaned = df[col].astype(str).str.replace(",", "").str.strip()\<close>\<close>
  "cleaned_cell x = strip (str_replace '','' [] (str_of_cell x))"

definition match_value :: "string option \<Rightarrow> string" where
  \<comment> \<open>one cell of \<^verbatim>\<open>cleaned_for_match\<close>\<close>
  "match_value x = strip_for_match (cleaned_cell x)"

definition coerce_series :: "numeric_lib \<Rightarrow> column \<Rightarrow> column" where
  \<comment> \<open>The body of the loop \<^verbatim>\<open>for col in df.columns\<close>, on the series \<^verbatim>\<open>df[col]\<close>; the
      result is what the column holds afterwards. Only a column of dtype \<^verbatim>\<open>object\<close>
      passes the dtype test.\<close>
  "coerce_series L s =
     (case s of
        ObjectCol xs \<Rightarrow>
          (let cleaned_for_match = map match_value xs;
               non_null = filter (\<lambda>m. m \<noteq> []) cleaned_for_match
           in if length non_null = 0 then s
              else
                (let numeric_match = map re_numeric non_null;
                     numeric_ratio = (of_nat (length (filter id numeric_match)) :: rat)
                                       / of_nat (length numeric_match)
                 in if numeric_ratio \<ge> 1 / 2 \<or> list_all id numeric_match
                    then to_numeric L cleaned_for_match
                    else s))
      | _ \<Rightarrow> s)"

fun coerce_loop ::
  "numeric_lib \<Rightarrow> string list \<Rightarrow> (string \<times> column) list \<Rightarrow> error + (string \<times> column) list" where
  \<comment> \<open>\<^verbatim>\<open>df[col].dtype\<close> raises \<^verbatim>\<open>AttributeError\<close> when \<^verbatim>\<open>df[col]\<close> is a frame.\<close>
  "coerce_loop L [] cols = Inr cols"
| "coerce_loop L (col # rest) cols =
     (case getitem cols col of
        Frame fs \<Rightarrow> Inl AttributeError
      | Series s \<Rightarrow> coerce_loop L rest (setitem cols col (coerce_series L s)))"

section \<open>Row index\<close>

definition ascii_lower :: "char \<Rightarrow> char" where
  "ascii_lower c = (if c \<in> set ''ABCDEFGHIJKLMNOPQRSTUVWXYZ'' then char_of (of_char c + (32 :: nat)) else c)"

definition index_like :: "string \<Rightarrow> bool" where
  \<comment> \<open>\<^verbatim>\<open>index_like_pattern.match(c.strip())\<close> for the pattern
      \<^verbatim>\<open>^(unnamed: 0|index|row|#|no\.?$|s no$|sr\.?n$|sr no$|id$)\<close> with
      \<^verbatim>\<open>re.IGNORECASE\<close>; \<^verbatim>\<open>$\<close> also matches before one final line feed.\<close>
  "index_like c =
     (let t = map ascii_lower (strip c);
          ends = (\<lambda>p. t = p \<or> t = p @ [CHR 0x0A])
      in prefix ''unnamed: 0'' t \<or> prefix ''index'' t \<or> prefix ''row'' t \<or> prefix ''#'' t \<or>
         ends ''no'' \<or> ends ''no.'' \<or> ends ''s no'' \<or> ends ''srn'' \<or> ends ''sr.n'' \<or>
         ends ''sr no'' \<or> ends ''id'')"

definition strip_for_index :: "string \<Rightarrow> string" where
  \<comment> \<open>\<^verbatim>\<open>re.sub(r'[^\d\-\+\.]', '', x)\<close>\<close>
  "strip_for_index x =
     filter (\<lambda>c. isdigit c \<or> c = CHR ''-'' \<or> c = CHR ''+'' \<or> c = CHR ''.'') x"

function str_nat :: "nat \<Rightarrow> string" where
  "str_nat n = (if n < 10 then [''0123456789'' ! n] else str_nat (n div 10) @ [''0123456789'' ! (n mod 10)])"
  by pat_completeness auto
termination
  by (relation "measure id") auto

declare str_nat.simps [simp del]

definition str_int :: "int \<Rightarrow> string" where
  \<comment> \<open>\<^verbatim>\<open>str\<close> of an integer\<close>
  "str_int i = (if i < 0 then CHR ''-'' # str_nat (nat (- i)) else str_nat (nat i))"

fun astype_str :: "numeric_lib \<Rightarrow> column \<Rightarrow> string list" where
  \<comment> \<open>\<^verbatim>\<open>series.astype(str)\<close>. The text of a finite \<^verbatim>\<open>float64\<close> value is Python's
      \<^verbatim>\<open>repr\<close> of the float, which the library gives.\<close>
  "astype_str L (ObjectCol xs) = map str_of_cell xs"
| "astype_str L (Int64Col xs) = map str_int xs"
| "astype_str L (UInt64Col xs) = map str_nat xs"
| "astype_str L (Float64Col xs) =
     map (\<lambda>x. case x of None \<Rightarrow> ''nan'' | Some PosInf \<Rightarrow> ''inf'' | Some NegInf \<Rightarrow> ''-inf''
               | Some (Finite q) \<Rightarrow> float_repr L q) xs"

fun notna_all :: "column \<Rightarrow> bool" where
  \<comment> \<open>\<^verbatim>\<open>conv.notna().all()\<close>\<close>
  "notna_all (ObjectCol xs) = list_all (\<lambda>x. x \<noteq> None) xs"
| "notna_all (Int64Col xs) = True"
| "notna_all (UInt64Col xs) = True"
| "notna_all (Float64Col xs) = list_all (\<lambda>x. x \<noteq> None) xs"

fun integer_like :: "column \<Rightarrow> bool" where
  \<comment> \<open>\<^verbatim>\<open>((conv % 1) == 0).all()\<close> on a numeric column; the remainder of an infinite
      value is \<^verbatim>\<open>NaN\<close>, which is not equal to 0.\<close>
  "integer_like (Int64Col xs) = True"
| "integer_like (UInt64Col xs) = True"
| "integer_like (Float64Col xs) =
     list_all (\<lambda>x. case x of Some (Finite q) \<Rightarrow> q = of_int \<lfloor>q\<rfloor> | _ \<Rightarrow> False) xs"
| "integer_like (ObjectCol xs) = False"

definition float_to_int64 :: "numeric_lib \<Rightarrow> fval option \<Rightarrow> int" where
  \<comment> \<open>The conversion of a double to \<^verbatim>\<open>int64\<close>: the fraction is cut off; for a value
      whose whole part is outside the range, and for an infinite value or \<^verbatim>\<open>NaN\<close>, the
      result is what the platform gives.\<close>
  "float_to_int64 L x =
     (case x of
        Some (Finite q) \<Rightarrow>
          (let z = (if q < 0 then - \<lfloor>- q\<rfloor> else \<lfloor>q\<rfloor>)
           in if INT64_MIN \<le> z \<and> z \<le> INT64_MAX then z else cast_overflow L x)
      | _ \<Rightarrow> cast_overflow L x)"

fun astype_int :: "numeric_lib \<Rightarrow> column \<Rightarrow> int list" where
  \<comment> \<open>\<^verbatim>\<open>conv.astype(int)\<close> on a numeric column: to \<^verbatim>\<open>int64\<close>. A \<^verbatim>\<open>uint64\<close> value
      above \<open>INT64_MAX\<close> wraps around.\<close>
  "astype_int L (Int64Col xs) = xs"
| "astype_int L (UInt64Col xs) =
     map (\<lambda>k. if int k \<le> INT64_MAX then int k else int k - 2 ^ 64) xs"
| "astype_int L (Float64Col xs) = map (float_to_int64 L) xs"
| "astype_int L (ObjectCol xs) = []"

definition drop_columns :: "(string \<times> column) list \<Rightarrow> string \<Rightarrow> (string \<times> column) list" where
  \<comment> \<open>\<^verbatim>\<open>df.drop(columns=[l])\<close>\<close>
  "drop_columns cols l = filter (\<lambda>(l', c). l' \<noteq> l) cols"

definition derive_index :: "numeric_lib \<Rightarrow> dataframe \<Rightarrow> error + dataframe" where
  \<comment> \<open>From \<^verbatim>\<open>index_like_col = next(...)\<close> to the end of \<^verbatim>\<open>if index_like_col:\<close>. A
      label that matches the pattern is a non-empty string, so the test
      \<^verbatim>\<open>if index_like_col\<close> holds exactly when a column was found.\<close>
  "derive_index L df =
     (case find index_like (map fst (columns df)) of
        None \<Rightarrow> Inr df
      | Some index_like_col \<Rightarrow>
          (case getitem (columns df) index_like_col of
             Frame fs \<Rightarrow> Inl AttributeError
           | Series s \<Rightarrow>
               (let conv = to_numeric L (map strip_for_index (astype_str L s))
                in if notna_all conv then
                     (if integer_like conv \<and> length (remdups (astype_int L conv)) = nrows df
                      then Inr \<lparr>columns = drop_columns (columns df) index_like_col,
                                index = Int64Index (astype_int L conv)\<rparr>
                      else Inr df)
                   else Inr df)))"

definition final_index :: "dataframe \<Rightarrow> dataframe" where
  \<comment> \<open>The last \<^verbatim>\<open>if\<close> of \<^verbatim>\<open>clean_dataframe\<close>: a \<^verbatim>\<open>RangeIndex\<close> is replaced by the one
      from 1 to \<^verbatim>\<open>len(df)\<close>; an \<^verbatim>\<open>Int64Index\<close> is left as it is.\<close>
  "final_index df =
     (case index df of
        RangeIndex a b \<Rightarrow> df\<lparr>index := RangeIndex 1 (int (nrows df) + 1)\<rparr>
      | Int64Index xs \<Rightarrow> df)"

section \<open>clean_dataframe and load_csv\<close>

definition clean_dataframe :: "numeric_lib \<Rightarrow> dataframe \<Rightarrow> error + dataframe" where
  \<comment> \<open>The test \<^verbatim>\<open>df is None\<close> is for a caller without a frame; \<^verbatim>\<open>load_csv\<close> always
      passes one. \<^verbatim>\<open>df.copy()\<close> keeps the caller's frame untouched, which a function on
      values does anyway. \<^verbatim>\<open>reset_index(drop=True)\<close> replaces whatever index the input
      had by the range from 0 to \<^verbatim>\<open>len(df)\<close>.\<close>
  "clean_dataframe L df =
     (if df_empty df then Inr empty_DataFrame
      else
        (let cols1 = map (\<lambda>(l, c). (clean_colname l, c)) (columns df);
             cols2 = filter (\<lambda>(l, c). \<not> prefix ''Unnamed'' l) cols1
         in case coerce_loop L (map fst cols2) cols2 of
              Inl e \<Rightarrow> Inl e
            | Inr cols3 \<Rightarrow>
                (case derive_index L
                        \<lparr>columns = cols3, index = RangeIndex 0 (int (nrows df))\<rparr> of
                   Inl e \<Rightarrow> Inl e
                 | Inr df4 \<Rightarrow> Inr (final_index df4))))"

definition load_csv ::
  "numeric_lib \<Rightarrow> bool \<Rightarrow> error + dataframe \<Rightarrow> error + dataframe \<Rightarrow> error + dataframe" where
  \<comment> \<open>\<open>exists\<close> is \<^verbatim>\<open>os.path.exists(file_name)\<close>; \<open>read_default\<close> and \<open>read_latin1\<close> are
      what \<^verbatim>\<open>pd.read_csv(file_name)\<close> and \<^verbatim>\<open>pd.read_csv(file_name, encoding="latin-1")\<close>
      do on the file: raise (\<open>Inl\<close>) or return a frame. The call of
      \<^verbatim>\<open>clean_dataframe\<close> stands after the \<^verbatim>\<open>try\<close> statement.\<close>
  "load_csv L exists read_default read_latin1 =
     (if \<not> exists then Inr empty_DataFrame
      else
        (case read_default of
           Inr df \<Rightarrow> clean_dataframe L df
         | Inl e \<Rightarrow>
             (case read_latin1 of
                Inr df \<Rightarrow> clean_dataframe L df
              | Inl e' \<Rightarrow> Inr empty_DataFrame)))"

section \<open>Vocabulary of the properties\<close>

fun is_text :: "column \<Rightarrow> bool" where
  "is_text (ObjectCol xs) = True"
| "is_text _ = False"

fun is_numeric :: "column \<Rightarrow> bool" where
  "is_numeric (ObjectCol xs) = False"
| "is_numeric _ = True"

fun is_float :: "column \<Rightarrow> bool" where
  "is_float (Float64Col xs) = True"
| "is_float _ = False"

fun cell_is_null :: "column \<Rightarrow> nat \<Rightarrow> bool" where
  "cell_is_null (ObjectCol xs) i = (xs ! i = None)"
| "cell_is_null (Int64Col xs) i = False"
| "cell_is_null (UInt64Col xs) i = False"
| "cell_is_null (Float64Col xs) i = (xs ! i = None)"

fun column_values :: "column \<Rightarrow> fval option list" where
  \<comment> \<open>the numbers in the cells of a numeric column, \<open>None\<close> for a null\<close>
  "column_values (Int64Col xs) = map (\<lambda>k. Some (Finite (of_int k))) xs"
| "column_values (UInt64Col xs) = map (\<lambda>k. Some (Finite (of_nat k))) xs"
| "column_values (Float64Col xs) = xs"
| "column_values (ObjectCol xs) = map (\<lambda>x. None) xs"

definition kept_columns :: "dataframe \<Rightarrow> (string \<times> column) list" where
  \<comment> \<open>The columns after header cleaning and removal of the unnamed columns, in their
      order.\<close>
  "kept_columns df =
     filter (\<lambda>(l, c). \<not> prefix ''Unnamed'' l)
       (map (\<lambda>(l, c). (clean_colname l, c)) (columns df))"

definition normalized_columns :: "numeric_lib \<Rightarrow> dataframe \<Rightarrow> (string \<times> column) list" where
  \<comment> \<open>The kept columns after numeric coercion.\<close>
  "normalized_columns L df = map (\<lambda>(l, c). (l, coerce_series L c)) (kept_columns df)"





fun single_spaced :: "string \<Rightarrow> bool" where
  \<comment> \<open>every white space character is a space, and none follows it directly\<close>
  "single_spaced [] = True"
| "single_spaced (c # cs) =
     ((if isspace c then c = CHR 0x20 \<and> (cs = [] \<or> \<not> isspace (hd cs)) else True)
      \<and> single_spaced cs)"




definition repr_whole :: "rat \<Rightarrow> string" where
  \<comment> \<open>Python's \<^verbatim>\<open>repr\<close> of a float that holds a whole number below \<open>10 ^ 16\<close> in
      magnitude: the digits of the number, a point and a zero.\<close>
  "repr_whole q = str_int \<lfloor>q\<rfloor> @ ''.0''"

definition exact_lib :: numeric_lib where
  \<comment> \<open>The library on numbers that a double holds exactly: the parser returns the number
      written, a whole float is rendered by \<open>repr_whole\<close>, and a conversion out of the
      range of \<^verbatim>\<open>int64\<close> gives \<open>INT64_MIN\<close>, as on x86-64. It instantiates the library in
      the examples, whose numbers are small and whole.\<close>
  "exact_lib =
     \<lparr>strtod = (\<lambda>s. case to_double s of None \<Rightarrow> Finite 0 | Some v \<Rightarrow> Finite (rat_of_number v)),
      float_repr = repr_whole,
      cast_overflow = (\<lambda>x. INT64_MIN)\<rparr>"

subsection \<open>Example tables\<close>







definition ex_unnamed_table :: dataframe where
  "ex_unnamed_table = \<lparr>columns = [(''Unnamed: 0'', Int64Col [3, 1, 2]),
       (''State'', ObjectCol [Some ''Ohio'', Some ''Iowa'', Some ''Utah''])], index = RangeIndex 0 3\<rparr>"

definition ex_lower_unnamed_table :: dataframe where
  "ex_lower_unnamed_table = \<lparr>columns = [(''unnamed: 0'', Int64Col [3, 1, 2]),
       (''State'', ObjectCol [Some ''Ohio'', Some ''Iowa'', Some ''Utah''])], index = RangeIndex 0 3\<rparr>"

definition ex_population_table :: dataframe where
  "ex_population_table = \<lparr>columns = [(''Unnamed: 3'', Float64Col [None, None, None]),
       (''State'', ObjectCol [Some ''Ohio'', Some ''Iowa'', Some ''Utah'']),
       (''Population1'', ObjectCol [Some ''1,234'', Some ''5,678'', Some []])],
     index = RangeIndex 0 3\<rparr>"

definition ex_question_table :: dataframe where
  "ex_question_table = \<lparr>columns = [(''a?'', ObjectCol [Some ''1'', Some ''2'']),
       (''a-'', ObjectCol [Some ''x'', Some ''y''])], index = RangeIndex 0 2\<rparr>"

definition ex_age_table :: dataframe where
  "ex_age_table = \<lparr>columns = [(''Nov-15'', Int64Col [4, 5]), (''11-15'', Int64Col [6, 7])],
     index = RangeIndex 0 2\<rparr>"



section \<open>The loop over the columns and the index step\<close>

lemma setitem_labels: "map fst (setitem cols l v) = map fst cols"
  by (induction cols) (auto simp: setitem_def)

lemma filter_label_distinct:
  "distinct (map fst cols) \<Longrightarrow> (l, c) \<in> set cols \<Longrightarrow> filter (\<lambda>(l', c'). l' = l) cols = [(l, c)]"
proof (induction cols)
  case Nil
  then show ?case by simp
next
  case (Cons a cols)
  obtain l0 c0 where a: "a = (l0, c0)" by (cases a)
  show ?case
  proof (cases "l0 = l")
    case True
    with Cons.prems a have "c0 = c" by (auto simp: image_iff)
    moreover from True Cons.prems a have "filter (\<lambda>(l', c'). l' = l) cols = []"
      by (auto simp: filter_empty_conv image_iff)
    ultimately show ?thesis using True a by simp
  next
    case False
    with Cons a show ?thesis by auto
  qed
qed

lemma getitem_distinct:
  "distinct (map fst cols) \<Longrightarrow> (l, c) \<in> set cols \<Longrightarrow> getitem cols l = Series c"
  by (simp add: getitem_def filter_label_distinct)

lemma setitem_distinct:
  "distinct (map fst cols) \<Longrightarrow> (l, c) \<in> set cols \<Longrightarrow>
   setitem cols l (f c) = map (\<lambda>(l', c'). if l' = l then (l', f c') else (l', c')) cols"
  unfolding setitem_def
  by (rule map_cong) (auto dest: eq_key_imp_eq_value)

lemma coerce_loop_distinct_gen:
  "distinct (map fst cols) \<Longrightarrow> distinct ls \<Longrightarrow> set ls \<subseteq> fst ` set cols \<Longrightarrow>
   coerce_loop L ls cols =
     Inr (map (\<lambda>(l, c). if l \<in> set ls then (l, coerce_series L c) else (l, c)) cols)"
proof (induction ls arbitrary: cols)
  case Nil
  then show ?case by (simp add: case_prod_unfold)
next
  case (Cons l ls)
  from Cons.prems obtain c where c: "(l, c) \<in> set cols" by auto
  let ?cols' = "map (\<lambda>(l', c'). if l' = l then (l', coerce_series L c') else (l', c')) cols"
  have g: "getitem cols l = Series c" using Cons.prems c by (simp add: getitem_distinct)
  have s: "setitem cols l (coerce_series L c) = ?cols'"
    using Cons.prems c by (simp add: setitem_distinct)
  have lab: "map fst ?cols' = map fst cols" by (induction cols) auto
  have d': "distinct (map fst ?cols')" using Cons.prems(1) by (simp only: lab)
  have "fst ` set ?cols' = fst ` set cols" using lab by (metis set_map)
  with Cons.prems(3) have sub: "set ls \<subseteq> fst ` set ?cols'" by auto
  have dl: "distinct ls" using Cons.prems(2) by simp
  have "coerce_loop L ls ?cols' =
     Inr (map (\<lambda>(l, c). if l \<in> set ls then (l, coerce_series L c) else (l, c)) ?cols')"
    by (rule Cons.IH [OF d' dl sub])
  moreover have "map (\<lambda>(l, c). if l \<in> set ls then (l, coerce_series L c) else (l, c)) ?cols'
     = map (\<lambda>(l', c). if l' \<in> set (l # ls) then (l', coerce_series L c) else (l', c)) cols"
    using Cons.prems(2) by (auto simp: case_prod_unfold)
  ultimately show ?case using g s by simp
qed

lemma coerce_loop_distinct:
  "distinct (map fst cols) \<Longrightarrow>
   coerce_loop L (map fst cols) cols = Inr (map (\<lambda>(l, c). (l, coerce_series L c)) cols)"
proof -
  assume d: "distinct (map fst cols)"
  have "map (\<lambda>(l, c). if l \<in> set (map fst cols) then (l, coerce_series L c) else (l, c)) cols
      = map (\<lambda>(l, c). (l, coerce_series L c)) cols"
    by (rule map_cong) force+
  with coerce_loop_distinct_gen [OF d d] show ?thesis by simp
qed

lemma getitem_dup:
  "1 < length (filter (\<lambda>(l', c). l' = l) cols) \<Longrightarrow> \<exists>fs. getitem cols l = Frame fs"
  by (auto simp: getitem_def split: list.splits prod.splits)

lemma getitem_single:
  "length (filter (\<lambda>(l', c). l' = l) cols) = 1 \<Longrightarrow> \<exists>c. getitem cols l = Series c"
  by (auto simp: getitem_def split: list.splits prod.splits)

lemma filter_setitem_length:
  "length (filter (\<lambda>(l', c). l' = k) (setitem cols l v)) = length (filter (\<lambda>(l', c). l' = k) cols)"
  by (induction cols) (auto simp: setitem_def split: if_splits)

lemma coerce_loop_dup_gen:
  "\<exists>k \<in> set ls. 1 < length (filter (\<lambda>(l', c). l' = k) cols) \<Longrightarrow>
   set ls \<subseteq> fst ` set cols \<Longrightarrow> coerce_loop L ls cols = Inl AttributeError"
proof (induction ls arbitrary: cols)
  case Nil
  then show ?case by simp
next
  case (Cons l ls)
  show ?case
  proof (cases "getitem cols l")
    case (Frame fs)
    then show ?thesis by simp
  next
    case (Series s)
    then have nd: "\<not> 1 < length (filter (\<lambda>(l', c). l' = l) cols)"
      using getitem_dup [of l cols] by auto
    with Cons.prems(1) obtain k where k: "k \<in> set ls" "1 < length (filter (\<lambda>(l', c). l' = k) cols)"
      by auto
    have "coerce_loop L ls (setitem cols l (coerce_series L s)) = Inl AttributeError"
    proof (rule Cons.IH)
      show "\<exists>k\<in>set ls. 1 < length (filter (\<lambda>(l', c). l' = k) (setitem cols l (coerce_series L s)))"
        using k by (auto simp: filter_setitem_length)
      have "fst ` set (setitem cols l (coerce_series L s)) = fst ` set cols"
        using setitem_labels [of cols l "coerce_series L s"] by (metis set_map)
      with Cons.prems(2) show "set ls \<subseteq> fst ` set (setitem cols l (coerce_series L s))" by auto
    qed
    with Series show ?thesis by simp
  qed
qed

lemma not_distinct_dup:
  "\<not> distinct (map fst cols) \<Longrightarrow> \<exists>k \<in> fst ` set cols. 1 < length (filter (\<lambda>(l', c). l' = k) cols)"
proof (induction cols)
  case Nil
  then show ?case by simp
next
  case (Cons a cols)
  obtain l0 c0 where a: "a = (l0, c0)" by (cases a)
  show ?case
  proof (cases "l0 \<in> fst ` set cols")
    case True
    then have "filter (\<lambda>(l', c). l' = l0) cols \<noteq> []"
      by (auto simp: filter_empty_conv)
    then have "0 < length (filter (\<lambda>(l', c). l' = l0) cols)" by simp
    with a show ?thesis by auto
  next
    case False
    with Cons a obtain k where "k \<in> fst ` set cols" "1 < length (filter (\<lambda>(l', c). l' = k) cols)"
      by auto
    with a show ?thesis by (auto intro!: bexI [of _ "(k, _)"] split: if_splits)
  qed
qed

lemma coerce_loop_dup:
  "\<not> distinct (map fst cols) \<Longrightarrow> coerce_loop L (map fst cols) cols = Inl AttributeError"
  using not_distinct_dup [of cols] by (intro coerce_loop_dup_gen) auto

lemma col_len_to_numeric: "col_len (to_numeric L vs) = length vs"
  by (simp add: to_numeric_def Let_def)

lemma is_numeric_to_numeric: "is_numeric (to_numeric L vs)"
  by (simp add: to_numeric_def Let_def)

lemma length_astype_str: "length (astype_str L s) = col_len s"
  by (cases s) auto

lemma length_astype_int: "is_numeric c \<Longrightarrow> length (astype_int L c) = col_len c"
  by (cases c) auto

lemma length_column_values: "length (column_values c) = col_len c"
  by (cases c) auto

lemma remdups_length_distinct: "(length (remdups xs) = length xs) = distinct xs"
  by (metis distinct_remdups length_remdups_eq remdups_id_iff_distinct)

lemma find_labels:
  "find P (map fst cols) = map_option fst (find (\<lambda>(l, c). P l) cols)"
  by (induction cols) auto

lemma find_mem: "find P xs = Some x \<Longrightarrow> x \<in> set xs"
  by (induction xs) (auto split: if_splits)

lemma derive_index_eq:
  assumes d: "distinct (map fst cols)"
    and len: "list_all (\<lambda>(l, c). col_len c = n) cols"
  shows "derive_index L \<lparr>columns = cols, index = RangeIndex 0 (int n)\<rparr> =
     Inr (case find (\<lambda>(l, c). index_like l) cols of
            None \<Rightarrow> \<lparr>columns = cols, index = RangeIndex 0 (int n)\<rparr>
          | Some (l, s) \<Rightarrow>
              if notna_all (to_numeric L (map strip_for_index (astype_str L s)))
                 \<and> integer_like (to_numeric L (map strip_for_index (astype_str L s)))
                 \<and> distinct (astype_int L (to_numeric L (map strip_for_index (astype_str L s))))
              then \<lparr>columns = drop_columns cols l,
                    index = Int64Index
                      (astype_int L (to_numeric L (map strip_for_index (astype_str L s))))\<rparr>
              else \<lparr>columns = cols, index = RangeIndex 0 (int n)\<rparr>)"
proof (cases "find (\<lambda>(l, c). index_like l) cols")
  case None
  then show ?thesis by (simp add: derive_index_def find_labels)
next
  case (Some a)
  obtain l s where a: "a = (l, s)" by (cases a)
  from Some a have mem: "(l, s) \<in> set cols" by (auto dest: find_mem)
  with d have g: "getitem cols l = Series s" by (rule getitem_distinct)
  from mem len have cl: "col_len s = n" by (auto simp: list_all_iff)
  define conv where "conv = to_numeric L (map strip_for_index (astype_str L s))"
  have "length (astype_int L conv) = n"
    unfolding conv_def
    by (simp add: length_astype_int is_numeric_to_numeric col_len_to_numeric length_astype_str cl)
  then have r: "(length (remdups (astype_int L conv)) = n) = distinct (astype_int L conv)"
    using remdups_length_distinct [of "astype_int L conv"] by simp
  have nr: "nrows \<lparr>columns = cols, index = RangeIndex 0 (int n)\<rparr> = n" by (simp add: nrows_def)
  show ?thesis
    using Some a g r nr
    by (simp add: derive_index_def find_labels Let_def conv_def [symmetric])
qed

lemma col_len_coerce_series: "col_len (coerce_series L c) = col_len c"
  by (cases c) (simp_all add: coerce_series_def Let_def col_len_to_numeric)

lemma labels_normalized: "map fst (normalized_columns L df) = map fst (kept_columns df)"
  by (simp add: normalized_columns_def case_prod_unfold comp_def)

lemma kept_columns_len:
  "wf_df df \<Longrightarrow> list_all (\<lambda>(l, c). col_len c = nrows df) (kept_columns df)"
  by (auto simp: wf_df_def kept_columns_def list_all_iff)

lemma normalized_columns_len:
  "wf_df df \<Longrightarrow> list_all (\<lambda>(l, c). col_len c = nrows df) (normalized_columns L df)"
  using kept_columns_len [of df]
  by (auto simp: normalized_columns_def list_all_iff col_len_coerce_series)

lemma clean_dataframe_raises:
  assumes "\<not> df_empty df" and "\<not> distinct (map fst (kept_columns df))"
  shows "clean_dataframe L df = Inl AttributeError"
  using assms coerce_loop_dup [of "kept_columns df"]
  by (simp add: clean_dataframe_def kept_columns_def Let_def)

lemma final_index_range:
  "final_index \<lparr>columns = cols, index = RangeIndex a b\<rparr>
     = \<lparr>columns = cols, index = RangeIndex 1 (int (nat (b - a)) + 1)\<rparr>"
  by (simp add: final_index_def nrows_def)

lemma final_index_int64:
  "final_index \<lparr>columns = cols, index = Int64Index xs\<rparr> = \<lparr>columns = cols, index = Int64Index xs\<rparr>"
  by (simp add: final_index_def)

lemma clean_dataframe_eq:
  assumes ne: "\<not> df_empty df" and wf: "wf_df df"
    and d: "distinct (map fst (kept_columns df))"
  shows "clean_dataframe L df =
     Inr (case find (\<lambda>(l, c). index_like l) (normalized_columns L df) of
            None \<Rightarrow> \<lparr>columns = normalized_columns L df,
                      index = RangeIndex 1 (int (nrows df) + 1)\<rparr>
          | Some (l, s) \<Rightarrow>
              if notna_all (to_numeric L (map strip_for_index (astype_str L s)))
                 \<and> integer_like (to_numeric L (map strip_for_index (astype_str L s)))
                 \<and> distinct (astype_int L (to_numeric L (map strip_for_index (astype_str L s))))
              then \<lparr>columns = drop_columns (normalized_columns L df) l,
                    index = Int64Index
                      (astype_int L (to_numeric L (map strip_for_index (astype_str L s))))\<rparr>
              else \<lparr>columns = normalized_columns L df,
                    index = RangeIndex 1 (int (nrows df) + 1)\<rparr>)"
proof -
  have loop: "coerce_loop L (map fst (kept_columns df)) (kept_columns df) = Inr (normalized_columns L df)"
    using coerce_loop_distinct [OF d] by (simp add: normalized_columns_def)
  have dn: "distinct (map fst (normalized_columns L df))" using d by (simp only: labels_normalized)
  note di = derive_index_eq [OF dn normalized_columns_len [OF wf, of L], of L]
  have cd: "clean_dataframe L df =
      (case derive_index L \<lparr>columns = normalized_columns L df, index = RangeIndex 0 (int (nrows df))\<rparr> of
         Inl e \<Rightarrow> Inl e | Inr df4 \<Rightarrow> Inr (final_index df4))"
    using ne loop by (simp add: clean_dataframe_def kept_columns_def Let_def)
  show ?thesis
    unfolding cd di
    by (simp add: final_index_range final_index_int64 split: option.split prod.split)
qed


lemma derive_index_columns:
  "derive_index L b = Inr d \<Longrightarrow> set (columns d) \<subseteq> set (columns b)"
  by (auto simp: derive_index_def Let_def drop_columns_def
      split: option.splits getitem_result.splits if_splits)

lemma columns_final_index: "columns (final_index d) = columns d"
  by (simp add: final_index_def split: index.splits)

lemma coerce_loop_Inr:
  "coerce_loop L (map fst cols) cols = Inr cols3 \<Longrightarrow>
   distinct (map fst cols) \<and> cols3 = map (\<lambda>(l, c). (l, coerce_series L c)) cols"
  using coerce_loop_dup [of cols] coerce_loop_distinct [of cols] by (cases "distinct (map fst cols)") auto

lemma clean_dataframe_Inr:
  assumes "clean_dataframe L df = Inr t" and "\<not> df_empty df"
  shows "distinct (map fst (kept_columns df))"
    and "set (columns t) \<subseteq> set (normalized_columns L df)"
proof -
  from assms obtain cols3 df4 where
    l: "coerce_loop L (map fst (kept_columns df)) (kept_columns df) = Inr cols3"
    and di: "derive_index L \<lparr>columns = cols3, index = RangeIndex 0 (int (nrows df))\<rparr> = Inr df4"
    and t: "t = final_index df4"
    by (auto simp: clean_dataframe_def kept_columns_def Let_def split: sum.splits)
  from coerce_loop_Inr [OF l] show "distinct (map fst (kept_columns df))" by simp
  from coerce_loop_Inr [OF l] have "cols3 = normalized_columns L df"
    by (simp add: normalized_columns_def)
  with derive_index_columns [OF di] t show "set (columns t) \<subseteq> set (normalized_columns L df)"
    by (simp add: columns_final_index)
qed

lemma clean_dataframe_empty: "df_empty df \<Longrightarrow> clean_dataframe L df = Inr empty_DataFrame"
  by (simp add: clean_dataframe_def)

lemma kept_labels_not_unnamed:
  "l \<in> fst ` set (kept_columns df) \<Longrightarrow> \<not> prefix ''Unnamed'' l \<and> l \<in> clean_colname ` fst ` set (columns df)"
  by (force simp: kept_columns_def)

lemma nrows_final_index: "nrows (final_index d) = nrows d"
  by (simp add: final_index_def nrows_def split: index.splits)

lemma drop_columns_len:
  "list_all (\<lambda>(l, c). col_len c = n) cols \<Longrightarrow> list_all (\<lambda>(l, c). col_len c = n) (drop_columns cols k)"
  by (auto simp: drop_columns_def list_all_iff)

lemma find_None_iff_labels:
  "(find (\<lambda>(l, c). P l) cols = None) = (\<forall>l \<in> fst ` set cols. \<not> P l)"
  by (induction cols) auto

lemma match_value_chars:
  "c \<in> set (match_value x) \<Longrightarrow> isdigit c \<or> c = CHR ''-'' \<or> c = CHR ''.''"
  by (auto simp: match_value_def strip_for_match_def)

lemma not_isdigit_misc [simp]:
  "\<not> isdigit (CHR ''+'')" "\<not> isdigit (CHR ''-'')" "\<not> isdigit (CHR ''.'')" "\<not> isdigit (CHR 0x0A)"
  by (simp_all add: isdigit_def)

lemma re_numeric_to_double:
  assumes "re_numeric m" and "CHR 0x0A \<notin> set m" and "CHR ''+'' \<notin> set m"
  shows "to_double m \<noteq> None"
proof -
  define t where "t = (case m of [] \<Rightarrow> m | c # r \<Rightarrow> if c = CHR ''-'' then r else m)"
  define r1 where "r1 = dropWhile isdigit t"
  have t2: "(case m of [] \<Rightarrow> m | c # r \<Rightarrow> if c = CHR ''-'' \<or> c = CHR ''+'' then r else m) = t"
    using assms(3) by (auto simp: t_def split: list.splits)
  have sub: "set t \<subseteq> set m" by (auto simp: t_def split: list.splits if_splits)
  have lf: "CHR 0x0A \<notin> set r1"
    using sub assms(2) unfolding r1_def by (auto dest: set_dropWhileD)
  note re = assms(1) [unfolded re_numeric_def Let_def, folded t_def, folded r1_def]
  from re have ip: "takeWhile isdigit t \<noteq> []" by blast
  show ?thesis
  proof (cases r1)
    case Nil
    show ?thesis using ip unfolding to_double_def Let_def t2 Nil [unfolded r1_def] by simp
  next
    case (Cons d r2)
    define r3 where "r3 = dropWhile isdigit r2"
    from Cons lf have "CHR 0x0A \<notin> set r3"
      unfolding r3_def by (auto dest: set_dropWhileD)
    then have nlf2: "r3 \<noteq> [CHR 0x0A]" by auto
    from Cons lf have nlf: "r1 \<noteq> [CHR 0x0A]" by auto
    from re have "d = CHR ''.'' \<and> r3 = []"
      unfolding Cons list.case r3_def [symmetric] using nlf2 nlf [unfolded Cons] by blast
    then show ?thesis
      using ip unfolding to_double_def Let_def t2 Cons [unfolded r1_def] list.case r3_def [symmetric]
      by simp
  qed
qed

lemma re_numeric_match_value:
  "re_numeric (match_value x) \<Longrightarrow> to_double (match_value x) \<noteq> None"
proof (rule re_numeric_to_double)
  show "CHR 0x0A \<notin> set (match_value x)" using match_value_chars [of "CHR 0x0A" x] by auto
  show "CHR ''+'' \<notin> set (match_value x)" using match_value_chars [of "CHR ''+''" x] by auto
qed

lemma is_int_val_not_None: "is_int_val p \<Longrightarrow> p \<noteq> None"
  by (cases p rule: is_int_val.cases) auto

lemma to_numeric_null:
  "i < length vs \<Longrightarrow> cell_is_null (to_numeric L vs) i = (to_double (vs ! i) = None)"
  by (auto simp: to_numeric_def Let_def list_all_length dest: is_int_val_not_None
      split: option.splits)

lemma int_of_val_rat: "is_int_val p \<Longrightarrow> of_int (int_of_val p) = rat_of_number (the p)"
  by (cases p rule: is_int_val.cases) auto

lemma to_numeric_value:
  assumes i: "i < length vs" and r: "to_double (vs ! i) \<noteq> None"
  shows "column_values (to_numeric L vs) ! i =
     Some (if is_float (to_numeric L vs) then strtod L (vs ! i)
           else Finite (rat_of_number (the (to_double (vs ! i)))))"
proof (cases "is_float (to_numeric L vs)")
  case True
  then have "to_numeric L vs =
      Float64Col (map (\<lambda>x. case to_double x of None \<Rightarrow> None | Some v \<Rightarrow> Some (strtod L x)) vs)"
    by (auto simp: to_numeric_def Let_def split: if_splits)
  with i r True show ?thesis by auto
next
  case False
  then have ai: "list_all is_int_val (map to_double vs)"
    and cases: "to_numeric L vs = Int64Col (map int_of_val (map to_double vs))
      \<or> (to_numeric L vs = UInt64Col (map nat (map int_of_val (map to_double vs)))
          \<and> \<not> list_ex (\<lambda>k. k < 0) (map int_of_val (map to_double vs)))"
    by (auto simp: to_numeric_def Let_def split: if_splits)
  from ai i have iv: "is_int_val (to_double (vs ! i))" by (simp add: list_all_length)
  from cases show ?thesis
  proof
    assume "to_numeric L vs = Int64Col (map int_of_val (map to_double vs))"
    with i iv show ?thesis by (simp add: int_of_val_rat)
  next
    assume u: "to_numeric L vs = UInt64Col (map nat (map int_of_val (map to_double vs)))
          \<and> \<not> list_ex (\<lambda>k. k < 0) (map int_of_val (map to_double vs))"
    with i have "0 \<le> int_of_val (to_double (vs ! i))"
      by (auto simp: list_ex_iff not_less)
    then have "(of_nat (nat (int_of_val (to_double (vs ! i)))) :: rat)
        = of_int (int_of_val (to_double (vs ! i)))"
      by (metis of_int_of_nat_eq int_nat_eq)
    with u i iv show ?thesis by (simp add: int_of_val_rat)
  qed
qed






lemma to_numeric_int64:
  assumes m: "map to_double vs = map (\<lambda>k. Some (IntVal k)) ks"
    and r: "list_all (\<lambda>k. INT64_MIN \<le> k \<and> k \<le> INT64_MAX) ks"
  shows "to_numeric L vs = Int64Col ks"
proof -
  have iv: "map int_of_val (map to_double vs) = ks" by (simp add: m comp_def)
  have ai: "list_all is_int_val (map to_double vs)" by (simp add: m list_all_iff)
  have mx: "INT64_MAX \<le> UINT64_MAX" by (simp add: INT64_MAX_def UINT64_MAX_def)
  from r mx have r1: "list_all (\<lambda>k. INT64_MIN \<le> k \<and> k \<le> UINT64_MAX) ks"
    by (auto simp: list_all_iff)
  from r have r2: "\<not> list_ex (\<lambda>k. INT64_MAX < k) ks" by (auto simp: list_all_iff list_ex_iff)
  show ?thesis
    unfolding to_numeric_def Let_def iv using ai r1 r2 by simp
qed


lemma ratio_half:
  "0 < k \<Longrightarrow> ((1::rat) / 2 \<le> of_nat m / of_nat k) = (k \<le> 2 * m)"
proof -
  assume k: "0 < k"
  have "((1::rat) / 2 \<le> of_nat m / of_nat k) = ((of_nat k :: rat) \<le> 2 * of_nat m)"
    using k by (simp add: field_simps)
  also have "\<dots> = ((of_nat k :: rat) \<le> of_nat (2 * m))" by simp
  also have "\<dots> = (k \<le> 2 * m)" by (simp only: of_nat_le_iff)
  finally show ?thesis .
qed

lemma filter_id_map: "length (filter id (map P xs)) = length (filter P xs)"
  by (induction xs) auto

lemma list_all_half: "list_all id (map P xs) \<Longrightarrow> length xs \<le> 2 * length (filter P xs)"
  by (induction xs) auto

lemma coerce_series_object:
  assumes "filter (\<lambda>m. m \<noteq> []) (map match_value xs) \<noteq> []"
  shows "coerce_series L (ObjectCol xs) =
     (if length (filter (\<lambda>m. m \<noteq> []) (map match_value xs))
           \<le> 2 * length (filter re_numeric (filter (\<lambda>m. m \<noteq> []) (map match_value xs)))
      then to_numeric L (map match_value xs) else ObjectCol xs)"
proof -
  let ?ne = "filter (\<lambda>m. m \<noteq> []) (map match_value xs)"
  from assms have k: "0 < length ?ne" by (simp only: length_greater_0_conv simp_thms)
  have r: "((1::rat) / 2 \<le> of_nat (length (filter id (map re_numeric ?ne))) / of_nat (length (map re_numeric ?ne)))
        = (length ?ne \<le> 2 * length (filter re_numeric ?ne))"
    using ratio_half [OF k, of "length (filter re_numeric ?ne)"] by (simp only: filter_id_map length_map)
  from assms have k0: "(length ?ne = 0) = False" by (simp only: length_0_conv simp_thms)
  have la: "(length ?ne \<le> 2 * length (filter re_numeric ?ne) \<or> list_all id (map re_numeric ?ne))
      = (length ?ne \<le> 2 * length (filter re_numeric ?ne))"
    using list_all_half [of re_numeric ?ne] by blast
  show ?thesis
    unfolding coerce_series_def column.case Let_def r k0 la if_False
    by (rule refl)
qed

lemma coerce_series_all_empty:
  "filter (\<lambda>m. m \<noteq> []) (map match_value xs) = [] \<Longrightarrow> coerce_series L (ObjectCol xs) = ObjectCol xs"
  unfolding coerce_series_def column.case Let_def
  by (simp only: list.size simp_thms if_True)

lemma normalized_columns_origin:
  "(l, c) \<in> set (normalized_columns L df) \<Longrightarrow>
   \<exists>(l0, c0) \<in> set (columns df). l = clean_colname l0 \<and> c = coerce_series L c0"
  by (auto simp: normalized_columns_def kept_columns_def)

section \<open>Header cleaning: replacement, white space and trimming\<close>

lemma collapse_ws_Nil_iff: "(collapse_ws s = []) = (s = [])"
  by (cases s) auto

lemma hd_collapse_ws:
  "s \<noteq> [] \<Longrightarrow> \<not> isspace (hd s) \<Longrightarrow> hd (collapse_ws s) = hd s"
  by (cases s) auto

lemma single_spaced_collapse_ws: "single_spaced (collapse_ws s)"
proof (induction s rule: collapse_ws.induct)
  case 1
  show ?case by simp
next
  case (2 c cs)
  show ?case
  proof (cases "isspace c")
    case True
    let ?r = "dropWhile isspace cs"
    have "collapse_ws ?r = [] \<or> \<not> isspace (hd (collapse_ws ?r))"
    proof (cases "?r = []")
      case True
      show ?thesis unfolding True by simp
    next
      case False
      then have "\<not> isspace (hd ?r)" by (rule hd_dropWhile)
      with False show ?thesis by (simp add: hd_collapse_ws)
    qed
    with True 2 show ?thesis by simp
  next
    case False
    with 2 show ?thesis by simp
  qed
qed

lemma single_spaced_append:
  "single_spaced (xs @ ys) \<Longrightarrow> single_spaced xs \<and> single_spaced ys"
proof (induction xs)
  case Nil
  then show ?case by simp
next
  case (Cons x xs)
  then show ?case by (cases xs) (auto split: if_splits)
qed

lemma strip_decomp: "\<exists>u v. s = u @ strip s @ v"
proof -
  let ?d = "dropWhile isspace s"
  have "s = takeWhile isspace s @ ?d" by simp
  moreover have "rev ?d = takeWhile isspace (rev ?d) @ dropWhile isspace (rev ?d)" by simp
  then have "?d = rev (dropWhile isspace (rev ?d)) @ rev (takeWhile isspace (rev ?d))"
    by (metis rev_append rev_rev_ident)
  ultimately have "s = takeWhile isspace s @ strip s @ rev (takeWhile isspace (rev ?d))"
    by (simp add: strip_def)
  then show ?thesis by blast
qed

lemma single_spaced_strip: "single_spaced s \<Longrightarrow> single_spaced (strip s)"
proof -
  assume a: "single_spaced s"
  obtain u v where "s = u @ strip s @ v" using strip_decomp by blast
  with a have "single_spaced (u @ (strip s @ v))" by simp
  then have "single_spaced (strip s @ v)" by (blast dest: single_spaced_append)
  then show ?thesis by (blast dest: single_spaced_append)
qed

lemma set_strip: "set (strip s) \<subseteq> set s"
proof -
  obtain u v where "s = u @ strip s @ v" using strip_decomp by blast
  then have "set s = set u \<union> set (strip s) \<union> set v" by (metis set_append Un_assoc)
  then show ?thesis by blast
qed

lemma strip_ends:
  "strip s = [] \<or> (\<not> isspace (hd (strip s)) \<and> \<not> isspace (last (strip s)))"
proof (cases "strip s = []")
  case True
  then show ?thesis by simp
next
  case False
  let ?d = "dropWhile isspace s"
  let ?e = "dropWhile isspace (rev ?d)"
  from False have e: "?e \<noteq> []" by (simp add: strip_def)
  then have "\<not> isspace (hd ?e)" by (rule hd_dropWhile)
  moreover have "last (strip s) = hd ?e" using e by (simp add: strip_def last_rev)
  moreover have "\<not> isspace (hd (strip s))"
  proof -
    from e have dn: "?d \<noteq> []" by (metis dropWhile.simps(1) rev.simps(1))
    then have nh: "\<not> isspace (hd ?d)" by (rule hd_dropWhile)
    have "?d = strip s @ rev (takeWhile isspace (rev ?d))"
      unfolding strip_def by (metis rev_append rev_rev_ident takeWhile_dropWhile_id)
    with False have "hd ?d = hd (strip s)" by (metis hd_append2)
    with nh show ?thesis by simp
  qed
  ultimately show ?thesis by simp
qed

lemma set_collapse_ws: "set (collapse_ws s) \<subseteq> insert (CHR 0x20) (set s)"
proof (induction s rule: collapse_ws.induct)
  case 1
  show ?case by simp
next
  case (2 c cs)
  show ?case
  proof (cases "isspace c")
    case True
    have "set (dropWhile isspace cs) \<subseteq> set cs" by (auto dest: set_dropWhileD)
    with True 2 show ?thesis by auto
  next
    case False
    with 2 show ?thesis by auto
  qed
qed

lemma str_replace_removes_char:
  "c \<notin> set new \<Longrightarrow> c \<notin> set (str_replace [c] new s)"
proof (induction "[c]" new s rule: str_replace.induct)
  case (1 new s)
  show ?case
  proof (cases s)
    case Nil
    then show ?thesis by (simp add: str_replace.simps)
  next
    case (Cons a as)
    show ?thesis
    proof (cases "a = c")
      case True
      with Cons have p: "prefix [c] s" by simp
      with 1 Cons have "c \<notin> set (str_replace [c] new (drop (length [c]) s))" by simp
      with p Cons 1(3) show ?thesis by (subst str_replace.simps) simp
    next
      case False
      with Cons have p: "\<not> prefix [c] s" by simp
      with 1 Cons have "c \<notin> set (str_replace [c] new (tl s))" by simp
      with p Cons False show ?thesis by (subst str_replace.simps) simp
    qed
  qed
qed

lemma single_spaced_no_ws:
  "single_spaced s \<Longrightarrow> c \<in> set s \<Longrightarrow> isspace c \<Longrightarrow> c = CHR 0x20"
  by (induction s) (auto split: if_splits)

lemma isspace_LF: "isspace (CHR 0x0A)"
  by (simp add: isspace_def)

lemma str_replace_absent:
  "old \<noteq> [] \<Longrightarrow> \<not> sublist old s \<Longrightarrow> str_replace old new s = s"
proof (induction s)
  case Nil
  then show ?case by (simp add: str_replace.simps)
next
  case (Cons a s)
  from Cons.prems(2) have np: "\<not> prefix old (a # s)" and ns: "\<not> sublist old s"
    by (auto simp: sublist_Cons_right)
  from Cons.IH [OF Cons.prems(1) ns] np Cons.prems(1) show ?case
    by (subst str_replace.simps) simp
qed

lemma collapse_ws_id: "single_spaced s \<Longrightarrow> collapse_ws s = s"
proof (induction s rule: collapse_ws.induct)
  case 1
  show ?case by simp
next
  case (2 c cs)
  show ?case
  proof (cases "isspace c")
    case True
    with "2.prems" have c: "c = CHR 0x20" and h: "cs = [] \<or> \<not> isspace (hd cs)"
      and ss: "single_spaced cs" by simp_all
    from h have dw: "dropWhile isspace cs = cs" by (cases cs) auto
    from "2.IH"(1) [OF True] ss have "collapse_ws cs = cs" by (simp only: dw)
    with True c show ?thesis by (simp only: collapse_ws.simps dw if_True)
  next
    case False
    with 2 show ?thesis by simp
  qed
qed

lemma dropWhile_hd_id: "xs \<noteq> [] \<Longrightarrow> \<not> P (hd xs) \<Longrightarrow> dropWhile P xs = xs"
  by (cases xs) auto

lemma sublist_single_mem: "sublist [c] s \<Longrightarrow> c \<in> set s"
  by (auto simp: sublist_def)

lemma strip_id:
  assumes "s = [] \<or> (\<not> isspace (hd s) \<and> \<not> isspace (last s))"
  shows "strip s = s"
proof (cases s)
  case Nil
  then show ?thesis by (simp add: strip_def)
next
  case (Cons a as)
  with assms have h: "\<not> isspace (hd s)" and l: "\<not> isspace (last s)" by auto
  from h Cons have d: "dropWhile isspace s = s" by simp
  from Cons have "rev s \<noteq> []" by simp
  moreover from Cons have "hd (rev s) = last s" by (simp add: hd_rev)
  ultimately have "dropWhile isspace (rev s) = rev s" using l by (intro dropWhile_hd_id) simp_all
  with d show ?thesis by (simp add: strip_def)
qed

lemma clean_colname_fixed:
  assumes ss: "single_spaced s"
    and ends: "s = [] \<or> (\<not> isspace (hd s) \<and> \<not> isspace (last s))"
    and q: "CHR ''?'' \<notin> set s"
    and da: "\<not> sublist dash_artifact s"
    and nov: "\<not> sublist ''Nov-15'' s"
  shows "clean_colname s = s"
proof -
  have "CHR 0x0A \<notin> set s" using single_spaced_no_ws [OF ss, of "CHR 0x0A"] isspace_LF by auto
  then have 1: "str_replace [CHR 0x0A] '' '' s = s"
    by (intro str_replace_absent) (auto dest: sublist_single_mem)
  have 2: "str_replace dash_artifact ''-'' s = s"
    using da by (intro str_replace_absent) (auto simp: dash_artifact_def)
  have "\<not> sublist (dash_artifact @ ''15'') s"
  proof
    assume "sublist (dash_artifact @ ''15'') s"
    then obtain ps ss where "s = ps @ (dash_artifact @ ''15'') @ ss" by (auto simp: sublist_def)
    then have "s = ps @ dash_artifact @ (''15'' @ ss)" by simp
    then have "sublist dash_artifact s" by (metis sublist_appendI)
    with da show False ..
  qed
  then have 3: "str_replace (dash_artifact @ ''15'') ''-15'' s = s"
    by (intro str_replace_absent) auto
  have 4: "str_replace ''Nov-15'' ''11-15'' s = s" using nov by (intro str_replace_absent) auto
  have 5: "str_replace ''?'' ''-'' s = s"
    using q by (intro str_replace_absent) (auto dest: sublist_single_mem)
  show ?thesis
    unfolding clean_colname_def Let_def 1 2 3 4 5 collapse_ws_id [OF ss] by (rule strip_id [OF ends])
qed

lemma str_replace_prefix:
  assumes o: "old \<noteq> []"
    and c1: "\<forall>p'. suffix p' p \<and> p' \<noteq> [] \<longrightarrow> \<not> prefix p' new \<and> \<not> prefix new p'"
    and pr: "prefix p (str_replace old new s)"
  shows "prefix p s"
  using c1 pr
proof (induction s arbitrary: p)
  case Nil
  with o show ?case by (simp add: str_replace.simps)
next
  case (Cons c cs)
  show ?case
  proof (cases p)
    case Nil
    then show ?thesis by simp
  next
    case (Cons a p')
    have np: "\<not> prefix old (c # cs)"
    proof
      assume m: "prefix old (c # cs)"
      with o have "str_replace old new (c # cs) = new @ str_replace old new (drop (length old) (c # cs))"
        by (subst str_replace.simps) simp
      with Cons.prems(2) have "prefix p new \<or> prefix new p"
        by (auto simp: prefix_append)
      moreover from Cons.prems(1) Cons have "\<not> prefix p new \<and> \<not> prefix new p" by auto
      ultimately show False by simp
    qed
    with o have e: "str_replace old new (c # cs) = c # str_replace old new cs"
      by (subst str_replace.simps) simp
    from Cons.prems(2) e Cons have ac: "a = c" and pp: "prefix p' (str_replace old new cs)"
      by simp_all
    have "\<forall>q. suffix q p' \<and> q \<noteq> [] \<longrightarrow> \<not> prefix q new \<and> \<not> prefix new q"
      using Cons.prems(1) Cons by (auto intro: suffix_ConsI)
    from Cons.IH [OF this pp] ac Cons show ?thesis by simp
  qed
qed

lemma str_replace_sublist:
  assumes o: "old \<noteq> []" and p: "p \<noteq> []"
    and c1: "\<forall>p'. suffix p' p \<and> p' \<noteq> [] \<longrightarrow> \<not> prefix p' new \<and> \<not> prefix new p'"
    and c2: "\<forall>n'. suffix n' new \<and> n' \<noteq> [] \<longrightarrow> \<not> prefix p n' \<and> \<not> prefix n' p"
    and sl: "sublist p (str_replace old new s)"
  shows "\<exists>s'. suffix s' s \<and> prefix p s' \<and> \<not> prefix old s'"
  using sl
proof (induction s rule: length_induct)
  case (1 s)
  show ?case
  proof (cases "s = []")
    case True
    with 1(2) o p show ?thesis by (simp add: str_replace.simps)
  next
    case ne: False
    show ?thesis
    proof (cases "prefix old s")
      case True
      define r where "r = str_replace old new (drop (length old) s)"
      from True o ne have e: "str_replace old new s = new @ r"
        unfolding r_def by (subst str_replace.simps) simp
      from 1(2) have "sublist p (new @ r)" unfolding e .
      then consider "sublist p new" | "sublist p r"
        | x1 x2 where "p = x1 @ x2" "suffix x1 new" "prefix x2 r"
        by (auto simp: sublist_append)
      then show ?thesis
      proof cases
        case 1
        then obtain n' where "suffix n' new" "prefix p n'" by (auto simp: sublist_altdef')
        moreover from this p have "n' \<noteq> []" by auto
        ultimately show ?thesis using c2 by blast
      next
        case 2
        from o ne have "length (drop (length old) s) < length s" by simp
        with "1.IH" 2 obtain s' where s': "suffix s' (drop (length old) s)" "prefix p s'"
          "\<not> prefix old s'" unfolding r_def by blast
        from s'(1) have "suffix s' s" by (rule suffix_order.trans [OF _ suffix_drop])
        with s' show ?thesis by blast
      next
        case 3
        show ?thesis
        proof (cases "x1 = []")
          case True
          with 3 have "sublist p r" by (simp add: prefix_imp_sublist)
          from o ne have "length (drop (length old) s) < length s" by simp
          with "1.IH" \<open>sublist p r\<close> obtain s' where s': "suffix s' (drop (length old) s)"
            "prefix p s'" "\<not> prefix old s'" unfolding r_def by blast
          from s'(1) have "suffix s' s" by (rule suffix_order.trans [OF _ suffix_drop])
          with s' show ?thesis by blast
        next
          case False
          from 3(1) have "prefix x1 p" by simp
          with False 3(2) c2 show ?thesis by blast
        qed
      qed
    next
      case np: False
      from ne obtain c cs where s: "s = c # cs" by (cases s) auto
      from np o s have e: "str_replace old new s = c # str_replace old new cs"
        by (subst str_replace.simps) simp
      from 1(2) e have "prefix p (str_replace old new s) \<or> sublist p (str_replace old new cs)"
        by (simp add: sublist_Cons_right)
      then show ?thesis
      proof
        assume "prefix p (str_replace old new s)"
        from str_replace_prefix [OF o c1 this] np show ?thesis by blast
      next
        assume a: "sublist p (str_replace old new cs)"
        from s have "length cs < length s" by simp
        with "1.IH" a obtain s' where s': "suffix s' cs" "prefix p s'" "\<not> prefix old s'"
          by blast
        from s'(1) s have "suffix s' s" by (simp add: suffix_ConsI)
        with s' show ?thesis by blast
      qed
    qed
  qed
qed

lemma str_replace_none_left:
  assumes "old \<noteq> []"
    and "list_all (\<lambda>q. q = [] \<or> (\<not> prefix q new \<and> \<not> prefix new q)) (suffixes old)"
    and "list_all (\<lambda>n. n = [] \<or> (\<not> prefix old n \<and> \<not> prefix n old)) (suffixes new)"
  shows "\<not> sublist old (str_replace old new s)"
proof
  assume a: "sublist old (str_replace old new s)"
  from assms(2) have c1: "\<forall>p'. suffix p' old \<and> p' \<noteq> [] \<longrightarrow> \<not> prefix p' new \<and> \<not> prefix new p'"
    by (auto simp: list_all_iff in_set_suffixes)
  from assms(3) have c2: "\<forall>n'. suffix n' new \<and> n' \<noteq> [] \<longrightarrow> \<not> prefix old n' \<and> \<not> prefix n' old"
    by (auto simp: list_all_iff in_set_suffixes)
  from str_replace_sublist [OF assms(1) assms(1) c1 c2 a] show False
    using suffix_imp_sublist by (auto simp: strict_suffix_def)
qed

lemma str_replace_keeps_absent:
  assumes "old \<noteq> []" and "p \<noteq> []"
    and "list_all (\<lambda>q. q = [] \<or> (\<not> prefix q new \<and> \<not> prefix new q)) (suffixes p)"
    and "list_all (\<lambda>n. n = [] \<or> (\<not> prefix p n \<and> \<not> prefix n p)) (suffixes new)"
    and "\<not> sublist p s"
  shows "\<not> sublist p (str_replace old new s)"
proof
  assume a: "sublist p (str_replace old new s)"
  from assms(3) have c1: "\<forall>p'. suffix p' p \<and> p' \<noteq> [] \<longrightarrow> \<not> prefix p' new \<and> \<not> prefix new p'"
    by (auto simp: list_all_iff in_set_suffixes)
  from assms(4) have c2: "\<forall>n'. suffix n' new \<and> n' \<noteq> [] \<longrightarrow> \<not> prefix p n' \<and> \<not> prefix n' p"
    by (auto simp: list_all_iff in_set_suffixes)
  from str_replace_sublist [OF assms(1) assms(2) c1 c2 a]
  have "sublist p s" by (auto simp: sublist_altdef')
  with assms(5) show False ..
qed

lemma set_str_replace:
  "old \<noteq> [] \<Longrightarrow> set (str_replace old new s) \<subseteq> set s \<union> set new"
proof (induction s rule: length_induct)
  case (1 s)
  show ?case
  proof (cases "s = []")
    case True
    with 1(2) show ?thesis by (simp add: str_replace.simps)
  next
    case ne: False
    show ?thesis
    proof (cases "prefix old s")
      case True
      from 1(2) ne have "length (drop (length old) s) < length s" by simp
      with "1.IH" 1(2) have "set (str_replace old new (drop (length old) s))
          \<subseteq> set (drop (length old) s) \<union> set new" by blast
      moreover have "set (drop (length old) s) \<subseteq> set s" by (rule set_drop_subset)
      moreover from True 1(2) ne
      have "str_replace old new s = new @ str_replace old new (drop (length old) s)"
        by (subst str_replace.simps) simp
      ultimately show ?thesis by auto
    next
      case False
      from ne obtain c cs where s: "s = c # cs" by (cases s) auto
      with "1.IH" 1(2) have "set (str_replace old new cs) \<subseteq> set cs \<union> set new" by simp
      moreover from False 1(2) s have "str_replace old new s = c # str_replace old new cs"
        by (subst str_replace.simps) simp
      ultimately show ?thesis using s by auto
    qed
  qed
qed

lemma collapse_ws_prefix:
  "\<forall>c \<in> set p. \<not> isspace c \<Longrightarrow> prefix p (collapse_ws s) \<Longrightarrow> prefix p s"
proof (induction s arbitrary: p)
  case Nil
  then show ?case by simp
next
  case (Cons c cs)
  show ?case
  proof (cases p)
    case Nil
    then show ?thesis by simp
  next
    case (Cons a p')
    with Cons.prems(1) have na: "\<not> isspace a" and np: "\<forall>c \<in> set p'. \<not> isspace c" by simp_all
    have sp: "isspace (CHR 0x20)" by (simp add: isspace_def)
    show ?thesis
    proof (cases "isspace c")
      case True
      with Cons.prems(2) Cons have "a = CHR 0x20" by simp
      with na sp show ?thesis by simp
    next
      case False
      with Cons.prems(2) Cons have "a = c" and "prefix p' (collapse_ws cs)" by simp_all
      with Cons.IH [OF np] Cons show ?thesis by simp
    qed
  qed
qed

lemma collapse_ws_sublist:
  assumes np: "\<forall>c \<in> set p. \<not> isspace c"
  shows "sublist p (collapse_ws s) \<Longrightarrow> sublist p s"
proof (induction s rule: collapse_ws.induct)
  case 1
  then show ?case by simp
next
  case (2 c cs)
  show ?case
  proof (cases "isspace c")
    case True
    with 2(3) have "prefix p (collapse_ws (c # cs)) \<or> sublist p (collapse_ws (dropWhile isspace cs))"
      by (simp add: sublist_Cons_right)
    then show ?thesis
    proof
      assume "prefix p (collapse_ws (c # cs))"
      from collapse_ws_prefix [OF np this] show ?thesis by (rule prefix_imp_sublist)
    next
      assume "sublist p (collapse_ws (dropWhile isspace cs))"
      with 2(1) True have "sublist p (dropWhile isspace cs)" by simp
      moreover have "sublist (dropWhile isspace cs) cs"
        by (rule suffix_imp_sublist [OF suffix_dropWhile])
      ultimately have "sublist p cs" by (rule sublist_order.order.trans)
      then show ?thesis by (simp add: sublist_Cons_right)
    qed
  next
    case False
    with 2(3) have "prefix p (collapse_ws (c # cs)) \<or> sublist p (collapse_ws cs)"
      by (simp add: sublist_Cons_right)
    then show ?thesis
    proof
      assume "prefix p (collapse_ws (c # cs))"
      from collapse_ws_prefix [OF np this] show ?thesis by (rule prefix_imp_sublist)
    next
      assume "sublist p (collapse_ws cs)"
      with 2(2) False have "sublist p cs" by simp
      then show ?thesis by (simp add: sublist_Cons_right)
    qed
  qed
qed

lemma strip_sublist: "sublist p (strip s) \<Longrightarrow> sublist p s"
proof -
  assume a: "sublist p (strip s)"
  from strip_decomp [of s] obtain u v where "s = u @ strip s @ v" by blast
  then have "sublist (strip s) s" by (metis sublist_appendI)
  with a show ?thesis by (rule sublist_order.order.trans)
qed

lemma clean_colname_no_artifact:
  "\<not> sublist [CHR 0xE2, CHR 0x88, CHR 0x92] (clean_colname s)"
proof
  let ?a = "[CHR 0xE2, CHR 0x88, CHR 0x92]"
  define s1 where "s1 = str_replace [CHR 0x0A] '' '' s"
  define s2 where "s2 = str_replace dash_artifact ''-'' s1"
  define s3 where "s3 = str_replace (dash_artifact @ ''15'') ''-15'' s2"
  define s4 where "s4 = str_replace ''Nov-15'' ''11-15'' s3"
  define s5 where "s5 = str_replace ''?'' ''-'' s4"
  have cc: "clean_colname s = strip (collapse_ws s5)"
    by (simp add: clean_colname_def Let_def s1_def s2_def s3_def s4_def s5_def)
  have da: "dash_artifact = ?a" by (simp add: dash_artifact_def)
  assume "sublist ?a (clean_colname s)"
  then have "sublist ?a (collapse_ws s5)" unfolding cc by (rule strip_sublist)
  moreover have "\<forall>c \<in> set ?a. \<not> isspace c" by (simp add: isspace_def)
  ultimately have 5: "sublist ?a s5" by (rule collapse_ws_sublist [rotated])
  have 2: "\<not> sublist ?a s2"
    unfolding s2_def da by (rule str_replace_none_left) (simp, code_simp, code_simp)
  have 3: "\<not> sublist ?a s3"
    unfolding s3_def da by (rule str_replace_keeps_absent [OF _ _ _ _ 2]) (simp, simp, code_simp, code_simp)
  have 4: "\<not> sublist ?a s4"
    unfolding s4_def by (rule str_replace_keeps_absent [OF _ _ _ _ 3]) (simp, simp, code_simp, code_simp)
  have "\<not> sublist ?a s5"
    unfolding s5_def by (rule str_replace_keeps_absent [OF _ _ _ _ 4]) (simp, simp, code_simp, code_simp)
  with 5 show False by simp
qed

lemma clean_colname_no_nov15:
  assumes q: "CHR ''?'' \<notin> set s"
  shows "\<not> sublist ''Nov-15'' (clean_colname s)"
proof
  define s1 where "s1 = str_replace [CHR 0x0A] '' '' s"
  define s2 where "s2 = str_replace dash_artifact ''-'' s1"
  define s3 where "s3 = str_replace (dash_artifact @ ''15'') ''-15'' s2"
  define s4 where "s4 = str_replace ''Nov-15'' ''11-15'' s3"
  define s5 where "s5 = str_replace ''?'' ''-'' s4"
  have cc: "clean_colname s = strip (collapse_ws s5)"
    by (simp add: clean_colname_def Let_def s1_def s2_def s3_def s4_def s5_def)
  assume "sublist ''Nov-15'' (clean_colname s)"
  then have "sublist ''Nov-15'' (collapse_ws s5)" unfolding cc by (rule strip_sublist)
  moreover have "\<forall>c \<in> set ''Nov-15''. \<not> isspace c" by (simp add: isspace_def)
  ultimately have 5: "sublist ''Nov-15'' s5" by (rule collapse_ws_sublist [rotated])
  have "set s1 \<subseteq> set s \<union> set '' ''" unfolding s1_def by (rule set_str_replace) simp
  moreover have "set s2 \<subseteq> set s1 \<union> set ''-''" unfolding s2_def
    by (rule set_str_replace) (simp add: dash_artifact_def)
  moreover have "set s3 \<subseteq> set s2 \<union> set ''-15''" unfolding s3_def
    by (rule set_str_replace) (simp add: dash_artifact_def)
  moreover have "set s4 \<subseteq> set s3 \<union> set ''11-15''" unfolding s4_def
    by (rule set_str_replace) simp
  ultimately have "CHR ''?'' \<notin> set s4" using q by auto
  then have "s5 = s4" unfolding s5_def
    by (intro str_replace_absent) (auto dest: sublist_single_mem)
  moreover have "\<not> sublist ''Nov-15'' s4"
    unfolding s4_def by (rule str_replace_none_left) (simp, code_simp, code_simp)
  ultimately show False using 5 by simp
qed

lemma str_replace_append:
  assumes o: "old \<noteq> []"
    and ns: "\<forall>u'. suffix u' u \<and> u' \<noteq> [] \<longrightarrow> prefix old (u' @ w) \<longrightarrow> prefix old u'"
  shows "str_replace old new (u @ w) = str_replace old new u @ str_replace old new w"
  using ns
proof (induction u rule: length_induct)
  case (1 u)
  show ?case
  proof (cases "u = []")
    case True
    with o show ?thesis by (simp add: str_replace.simps [of old new "[]"])
  next
    case ne: False
    show ?thesis
    proof (cases "prefix old u")
      case True
      then have le: "length old \<le> length u" by (rule prefix_length_le)
      from True have pw: "prefix old (u @ w)" by (rule prefix_prefix)
      from o ne have lt: "length (drop (length old) u) < length u" by simp
      have "\<forall>u'. suffix u' (drop (length old) u) \<and> u' \<noteq> [] \<longrightarrow> prefix old (u' @ w) \<longrightarrow> prefix old u'"
        using 1(2) suffix_order.trans [OF _ suffix_drop] by blast
      with "1.IH" lt have ih: "str_replace old new (drop (length old) u @ w)
          = str_replace old new (drop (length old) u) @ str_replace old new w" by blast
      from pw o ne have "str_replace old new (u @ w)
          = new @ str_replace old new (drop (length old) (u @ w))"
        by (subst str_replace.simps) simp
      also from le have "drop (length old) (u @ w) = drop (length old) u @ w" by simp
      finally have e1: "str_replace old new (u @ w)
          = new @ str_replace old new (drop (length old) u) @ str_replace old new w"
        by (simp only: ih)
      from True o ne have "str_replace old new u = new @ str_replace old new (drop (length old) u)"
        by (subst str_replace.simps) simp
      with e1 show ?thesis by simp
    next
      case False
      with 1(2) ne have nw: "\<not> prefix old (u @ w)" by blast
      from ne obtain c cs where u: "u = c # cs" by (cases u) auto
      have "\<forall>u'. suffix u' cs \<and> u' \<noteq> [] \<longrightarrow> prefix old (u' @ w) \<longrightarrow> prefix old u'"
        using 1(2) u by (auto intro: suffix_ConsI)
      with "1.IH" u have ih: "str_replace old new (cs @ w)
          = str_replace old new cs @ str_replace old new w" by simp
      from nw o u have "str_replace old new (u @ w) = c # str_replace old new (cs @ w)"
        by (subst str_replace.simps) simp
      moreover from False o u have "str_replace old new u = c # str_replace old new cs"
        by (subst str_replace.simps) simp
      ultimately show ?thesis using ih by simp
    qed
  qed
qed

lemma no_straddle:
  assumes c: "list_all (\<lambda>q. q = [] \<or> q = old \<or> (\<not> prefix q w0 \<and> \<not> prefix w0 q)) (suffixes old)"
  shows "\<forall>u'. suffix u' u \<and> u' \<noteq> [] \<longrightarrow> prefix old (u' @ w0 @ v) \<longrightarrow> prefix old u'"
proof (intro allI impI)
  fix u'
  assume a: "suffix u' u \<and> u' \<noteq> []" and p: "prefix old (u' @ w0 @ v)"
  show "prefix old u'"
  proof (rule ccontr)
    assume n: "\<not> prefix old u'"
    with p obtain us where us: "old = u' @ us" "prefix us (w0 @ v)"
      by (auto simp: prefix_append)
    from n us(1) have 1: "us \<noteq> []" by auto
    from a us(1) have 2: "us \<noteq> old" by auto
    from us(1) have "suffix us old" by (simp add: suffix_def)
    then have "us \<in> set (suffixes old)" by (simp add: in_set_suffixes)
    with c 1 2 have "\<not> prefix us w0 \<and> \<not> prefix w0 us" by (auto simp: list_all_iff)
    moreover from us(2) have "prefix us w0 \<or> prefix w0 us" by (auto simp: prefix_append)
    ultimately show False by simp
  qed
qed

lemma str_replace_nostart:
  "old \<noteq> [] \<Longrightarrow> hd old \<notin> set w \<Longrightarrow> str_replace old new (w @ v) = w @ str_replace old new v"
proof (induction w)
  case Nil
  then show ?case by simp
next
  case (Cons c w)
  from Cons.prems have "\<not> prefix old ((c # w) @ v)" by (cases old) auto
  with Cons.prems(1) have "str_replace old new ((c # w) @ v) = c # str_replace old new (w @ v)"
    by (subst str_replace.simps) simp
  with Cons show ?case by simp
qed

lemma str_replace_hit:
  "old \<noteq> [] \<Longrightarrow> str_replace old new (old @ v) = new @ str_replace old new v"
  by (subst str_replace.simps) simp

lemma str_replace_mid:
  assumes "old \<noteq> []"
    and "list_all (\<lambda>q. q = [] \<or> q = old \<or> (\<not> prefix q w0 \<and> \<not> prefix w0 q)) (suffixes old)"
    and "hd old \<notin> set w0"
  shows "str_replace old new (u @ w0 @ v) = str_replace old new u @ w0 @ str_replace old new v"
proof -
  have "str_replace old new (u @ w0 @ v) = str_replace old new u @ str_replace old new (w0 @ v)"
    by (rule str_replace_append [OF assms(1) no_straddle [OF assms(2)]])
  also have "str_replace old new (w0 @ v) = w0 @ str_replace old new v"
    by (rule str_replace_nostart [OF assms(1) assms(3)])
  finally show ?thesis .
qed

lemma str_replace_mid_hit:
  assumes "old \<noteq> []"
    and "list_all (\<lambda>q. q = [] \<or> q = old \<or> (\<not> prefix q old \<and> \<not> prefix old q)) (suffixes old)"
  shows "str_replace old new (u @ old @ v) = str_replace old new u @ new @ str_replace old new v"
proof -
  have "str_replace old new (u @ old @ v) = str_replace old new u @ str_replace old new (old @ v)"
    by (rule str_replace_append [OF assms(1) no_straddle [OF assms(2)]])
  also have "str_replace old new (old @ v) = new @ str_replace old new v"
    by (rule str_replace_hit [OF assms(1)])
  finally show ?thesis .
qed

lemma clean_colname_cong1:
  "str_replace [CHR 0x0A] '' '' s = str_replace [CHR 0x0A] '' '' t
   \<Longrightarrow> clean_colname s = clean_colname t"
  by (simp add: clean_colname_def Let_def)

lemma clean_colname_cong2:
  "str_replace dash_artifact ''-'' (str_replace [CHR 0x0A] '' '' s)
     = str_replace dash_artifact ''-'' (str_replace [CHR 0x0A] '' '' t)
   \<Longrightarrow> clean_colname s = clean_colname t"
  by (simp add: clean_colname_def Let_def)

lemma clean_colname_cong4:
  "str_replace ''Nov-15'' ''11-15'' (str_replace (dash_artifact @ ''15'') ''-15''
      (str_replace dash_artifact ''-'' (str_replace [CHR 0x0A] '' '' s)))
     = str_replace ''Nov-15'' ''11-15'' (str_replace (dash_artifact @ ''15'') ''-15''
      (str_replace dash_artifact ''-'' (str_replace [CHR 0x0A] '' '' t)))
   \<Longrightarrow> clean_colname s = clean_colname t"
  by (simp add: clean_colname_def Let_def)

lemma clean_colname_line_feed:
  "clean_colname (u @ [CHR 0x0A] @ v) = clean_colname (u @ '' '' @ v)"
proof (rule clean_colname_cong1)
  have "str_replace [CHR 0x0A] '' '' (u @ [CHR 0x0A] @ v)
      = str_replace [CHR 0x0A] '' '' u @ '' '' @ str_replace [CHR 0x0A] '' '' v"
    by (rule str_replace_mid_hit) (simp, code_simp)
  moreover have "str_replace [CHR 0x0A] '' '' (u @ '' '' @ v)
      = str_replace [CHR 0x0A] '' '' u @ '' '' @ str_replace [CHR 0x0A] '' '' v"
    by (rule str_replace_mid) (simp, code_simp, simp)
  ultimately show "str_replace [CHR 0x0A] '' '' (u @ [CHR 0x0A] @ v)
      = str_replace [CHR 0x0A] '' '' (u @ '' '' @ v)" by (simp only:)
qed

lemma clean_colname_artifact:
  "clean_colname (u @ [CHR 0xE2, CHR 0x88, CHR 0x92] @ v) = clean_colname (u @ ''-'' @ v)"
proof (rule clean_colname_cong2)
  let ?a = "[CHR 0xE2, CHR 0x88, CHR 0x92]"
  have da: "dash_artifact = ?a" by (simp add: dash_artifact_def)
  have a1: "str_replace [CHR 0x0A] '' '' (u @ ?a @ v)
      = str_replace [CHR 0x0A] '' '' u @ ?a @ str_replace [CHR 0x0A] '' '' v"
    by (rule str_replace_mid) (simp, code_simp, simp)
  have b1: "str_replace [CHR 0x0A] '' '' (u @ ''-'' @ v)
      = str_replace [CHR 0x0A] '' '' u @ ''-'' @ str_replace [CHR 0x0A] '' '' v"
    by (rule str_replace_mid) (simp, code_simp, simp)
  have a2: "str_replace ?a ''-'' (x @ ?a @ y) = str_replace ?a ''-'' x @ ''-'' @ str_replace ?a ''-'' y"
    for x y by (rule str_replace_mid_hit) (simp, code_simp)
  have b2: "str_replace ?a ''-'' (x @ ''-'' @ y) = str_replace ?a ''-'' x @ ''-'' @ str_replace ?a ''-'' y"
    for x y by (rule str_replace_mid) (simp, code_simp, simp)
  show "str_replace dash_artifact ''-'' (str_replace [CHR 0x0A] '' '' (u @ ?a @ v))
     = str_replace dash_artifact ''-'' (str_replace [CHR 0x0A] '' '' (u @ ''-'' @ v))"
    unfolding da a1 b1 a2 b2 by (rule refl)
qed

lemma clean_colname_nov15:
  "clean_colname (u @ ''Nov-15'' @ v) = clean_colname (u @ ''11-15'' @ v)"
proof (rule clean_colname_cong4)
  let ?a = "[CHR 0xE2, CHR 0x88, CHR 0x92]"
  let ?b = "[CHR 0xE2, CHR 0x88, CHR 0x92] @ ''15''"
  have da: "dash_artifact = ?a" by (simp add: dash_artifact_def)
  have a1: "str_replace [CHR 0x0A] '' '' (x @ ''Nov-15'' @ y)
      = str_replace [CHR 0x0A] '' '' x @ ''Nov-15'' @ str_replace [CHR 0x0A] '' '' y"
    for x y by (rule str_replace_mid) (simp, code_simp, simp)
  have b1: "str_replace [CHR 0x0A] '' '' (x @ ''11-15'' @ y)
      = str_replace [CHR 0x0A] '' '' x @ ''11-15'' @ str_replace [CHR 0x0A] '' '' y"
    for x y by (rule str_replace_mid) (simp, code_simp, simp)
  have a2: "str_replace ?a ''-'' (x @ ''Nov-15'' @ y)
      = str_replace ?a ''-'' x @ ''Nov-15'' @ str_replace ?a ''-'' y"
    for x y by (rule str_replace_mid) (simp, code_simp, simp)
  have b2: "str_replace ?a ''-'' (x @ ''11-15'' @ y)
      = str_replace ?a ''-'' x @ ''11-15'' @ str_replace ?a ''-'' y"
    for x y by (rule str_replace_mid) (simp, code_simp, simp)
  have a3: "str_replace ?b ''-15'' (x @ ''Nov-15'' @ y)
      = str_replace ?b ''-15'' x @ ''Nov-15'' @ str_replace ?b ''-15'' y"
    for x y by (rule str_replace_mid) (simp, code_simp, simp)
  have b3: "str_replace ?b ''-15'' (x @ ''11-15'' @ y)
      = str_replace ?b ''-15'' x @ ''11-15'' @ str_replace ?b ''-15'' y"
    for x y by (rule str_replace_mid) (simp, code_simp, simp)
  have a4: "str_replace ''Nov-15'' ''11-15'' (x @ ''Nov-15'' @ y)
      = str_replace ''Nov-15'' ''11-15'' x @ ''11-15'' @ str_replace ''Nov-15'' ''11-15'' y"
    for x y by (rule str_replace_mid_hit) (simp, code_simp)
  have b4: "str_replace ''Nov-15'' ''11-15'' (x @ ''11-15'' @ y)
      = str_replace ''Nov-15'' ''11-15'' x @ ''11-15'' @ str_replace ''Nov-15'' ''11-15'' y"
    for x y by (rule str_replace_mid) (simp, code_simp, simp)
  show "str_replace ''Nov-15'' ''11-15'' (str_replace (dash_artifact @ ''15'') ''-15''
      (str_replace dash_artifact ''-'' (str_replace [CHR 0x0A] '' '' (u @ ''Nov-15'' @ v))))
     = str_replace ''Nov-15'' ''11-15'' (str_replace (dash_artifact @ ''15'') ''-15''
      (str_replace dash_artifact ''-'' (str_replace [CHR 0x0A] '' '' (u @ ''11-15'' @ v))))"
    unfolding da a1 b1 a2 b2 a3 b3 a4 b4 by (rule refl)
qed

section \<open>The second pass: the shape of a returned table\<close>










lemma distinct_drop_columns:
  "distinct (map fst cols) \<Longrightarrow> distinct (map fst (drop_columns cols l))"
  unfolding drop_columns_def by (rule distinct_map_filter)



section \<open>Numeric coercion of a column\<close>

text \<open>
  C1. Every column of a table the normalizer returns is the coerced form of an input column
  under its cleaned label. Coercion leaves a numeric column as it is, and leaves a text
  column as it is when none of its match values is non-empty. For a text column with a
  non-empty match value: the match values hold only digits, minus signs and points; the
  column becomes the numeric column read from the match values exactly when at least half
  of the non-empty match values match the number pattern (which is so when all of them
  do), and stays the same text column otherwise; in the numeric column a cell is null
  exactly when its match value cannot be read, every other cell holds the number read (the
  number written when the column is an integer column, the double the library's parser
  gives for the text when it is a float column), and a match value that matches the
  pattern can always be read.
\<close>

theorem C1_numeric_coercion:
  assumes "clean_dataframe L df = Inr t" and "\<not> df_empty df"
  shows "(\<forall>(l, c) \<in> set (columns t). \<exists>(l0, c0) \<in> set (columns df).
            l = clean_colname l0 \<and> c = coerce_series L c0)
    \<and> (\<forall>c. \<not> is_text c \<longrightarrow> coerce_series L c = c)
    \<and> (\<forall>xs. filter (\<lambda>m. m \<noteq> []) (map match_value xs) = []
           \<longrightarrow> coerce_series L (ObjectCol xs) = ObjectCol xs)
    \<and> (\<forall>xs ms ne. ms = map match_value xs \<and> ne = filter (\<lambda>m. m \<noteq> []) ms \<and> ne \<noteq> [] \<longrightarrow>
          (\<forall>m \<in> set ms. \<forall>ch \<in> set m. isdigit ch \<or> ch = CHR ''-'' \<or> ch = CHR ''.'')
          \<and> coerce_series L (ObjectCol xs) =
               (if length ne \<le> 2 * length (filter re_numeric ne) then to_numeric L ms
                else ObjectCol xs)
          \<and> ((\<forall>m \<in> set ne. re_numeric m) \<longrightarrow> length ne \<le> 2 * length (filter re_numeric ne))
          \<and> is_numeric (to_numeric L ms) \<and> col_len (to_numeric L ms) = length xs
          \<and> (\<forall>i < length xs.
                cell_is_null (to_numeric L ms) i = (to_double (ms ! i) = None)
                \<and> (to_double (ms ! i) \<noteq> None \<longrightarrow>
                     column_values (to_numeric L ms) ! i =
                       Some (if is_float (to_numeric L ms) then strtod L (ms ! i)
                             else Finite (rat_of_number (the (to_double (ms ! i))))))
                \<and> (re_numeric (ms ! i) \<longrightarrow> to_double (ms ! i) \<noteq> None)))"
proof (intro conjI allI impI)
  show "\<forall>(l, c) \<in> set (columns t). \<exists>(l0, c0) \<in> set (columns df).
            l = clean_colname l0 \<and> c = coerce_series L c0"
  proof (intro ballI, unfold split_paired_all prod.case)
    fix l c assume "(l, c) \<in> set (columns t)"
    with clean_dataframe_Inr(2) [OF assms] have "(l, c) \<in> set (normalized_columns L df)"
      by (rule subsetD)
    then show "\<exists>(l0, c0) \<in> set (columns df). l = clean_colname l0 \<and> c = coerce_series L c0"
      by (rule normalized_columns_origin)
  qed
next
  fix c assume "\<not> is_text c"
  then show "coerce_series L c = c" by (cases c) (simp_all add: coerce_series_def)
next
  fix xs
  assume "filter (\<lambda>m. m \<noteq> []) (map match_value xs) = []"
  then show "coerce_series L (ObjectCol xs) = ObjectCol xs" by (rule coerce_series_all_empty)
next
  fix xs ms ne
  assume a: "ms = map match_value xs \<and> ne = filter (\<lambda>m. m \<noteq> []) ms \<and> ne \<noteq> []"
  then have ms: "ms = map match_value xs" and ne: "ne = filter (\<lambda>m. m \<noteq> []) (map match_value xs)"
    and nn: "filter (\<lambda>m. m \<noteq> []) (map match_value xs) \<noteq> []" by blast+
  show "\<forall>m \<in> set ms. \<forall>ch \<in> set m. isdigit ch \<or> ch = CHR ''-'' \<or> ch = CHR ''.''"
    unfolding ms using match_value_chars by auto
  show "coerce_series L (ObjectCol xs) =
               (if length ne \<le> 2 * length (filter re_numeric ne) then to_numeric L ms
                else ObjectCol xs)"
    unfolding ms ne by (rule coerce_series_object [OF nn])
  show "is_numeric (to_numeric L ms)" by (rule is_numeric_to_numeric)
  show "col_len (to_numeric L ms) = length xs" by (simp add: col_len_to_numeric ms)
  show "length ne \<le> 2 * length (filter re_numeric ne)" if "\<forall>m \<in> set ne. re_numeric m"
  proof -
    from that have "filter re_numeric ne = ne" by (simp add: filter_id_conv)
    then show ?thesis by simp
  qed
  fix i assume i: "i < length xs"
  then have il: "i < length ms" by (simp add: ms)
  show "cell_is_null (to_numeric L ms) i = (to_double (ms ! i) = None)"
    by (rule to_numeric_null [OF il])
  show "column_values (to_numeric L ms) ! i =
                       Some (if is_float (to_numeric L ms) then strtod L (ms ! i)
                             else Finite (rat_of_number (the (to_double (ms ! i)))))"
    if "to_double (ms ! i) \<noteq> None"
    by (rule to_numeric_value [OF il that])
  show "to_double (ms ! i) \<noteq> None" if "re_numeric (ms ! i)"
    using that i re_numeric_match_value [of "xs ! i"] by (simp add: ms)
qed

theorem C1_numeric_coercion_witness:
  "clean_dataframe exact_lib ex_population_table =
     Inr \<lparr>columns = [(''State'', ObjectCol [Some ''Ohio'', Some ''Iowa'', Some ''Utah'']),
                      (''Population1'', Float64Col [Some (Finite 1234), Some (Finite 5678), None])],
          index = RangeIndex 1 4\<rparr>
   \<and> \<not> df_empty ex_population_table
   \<and> map match_value [Some ''1,234'', Some ''5,678'', Some []] = [''1234'', ''5678'', []]
   \<and> coerce_series exact_lib (ObjectCol [Some ''1,234'', Some ''5,678'', Some []])
       = Float64Col [Some (Finite 1234), Some (Finite 5678), None]"
proof -
  let ?xs = "[Some ''1,234'', Some ''5,678'', Some []]"
  let ?ms = "[''1234'', ''5678'', []]"
  let ?ne = "[''1234'', ''5678'']"
  have e: "clean_dataframe exact_lib ex_population_table =
     Inr \<lparr>columns = [(''State'', ObjectCol [Some ''Ohio'', Some ''Iowa'', Some ''Utah'']),
                      (''Population1'', Float64Col [Some (Finite 1234), Some (Finite 5678), None])],
          index = RangeIndex 1 4\<rparr>"
    by code_simp
  have h: "\<not> df_empty ex_population_table" by code_simp
  have m: "?ms = map match_value ?xs" by code_simp
  have n: "?ne = filter (\<lambda>m. m \<noteq> []) ?ms" by code_simp
  have r: "length ?ne \<le> 2 * length (filter re_numeric ?ne)" by code_simp
  have v: "to_numeric exact_lib ?ms = Float64Col [Some (Finite 1234), Some (Finite 5678), None]" by code_simp
  have ne: "?ne \<noteq> []" by simp
  note c = C1_numeric_coercion [OF e h, THEN conjunct2, THEN conjunct2, THEN conjunct2,
      THEN spec, THEN spec,
      THEN spec, THEN mp, of ?ms ?xs ?ne, OF conjI [OF m conjI [OF n ne]]]
  from c have "coerce_series exact_lib (ObjectCol ?xs) =
          (if length ?ne \<le> 2 * length (filter re_numeric ?ne) then to_numeric exact_lib ?ms
           else ObjectCol ?xs)"
    by (rule conjunct2 [THEN conjunct1])
  with r v have "coerce_series exact_lib (ObjectCol ?xs) = Float64Col [Some (Finite 1234), Some (Finite 5678), None]"
    by (simp only: if_True)
  with e h m show ?thesis by simp
qed

section \<open>The coercion scenarios\<close>

text \<open>
  C5, as the code has it. The match values of the column Alabama, Alaska, 1 are two empty
  strings and the string 1; the empty ones are left out of the statistic, so the one
  remaining value matches, the fraction is 1 and the column is coerced: it becomes the
  float column null, null, and what the parser reads from the text 1, which is the number 1
  for a parser that is exact on small whole numbers. The column 1, 2, x1 has the match
  values 1, 2, 1, all of which match, and becomes the integer column 1, 2, 1.
\<close>

theorem C5_scenarios:
  "map match_value [Some ''Alabama'', Some ''Alaska'', Some ''1''] = [[], [], ''1'']
   \<and> coerce_series L (ObjectCol [Some ''Alabama'', Some ''Alaska'', Some ''1''])
       = Float64Col [None, None, Some (strtod L ''1'')]
   \<and> coerce_series exact_lib (ObjectCol [Some ''Alabama'', Some ''Alaska'', Some ''1''])
       = Float64Col [None, None, Some (Finite 1)]
   \<and> map match_value [Some ''1'', Some ''2'', Some ''x1''] = [''1'', ''2'', ''1'']
   \<and> coerce_series L (ObjectCol [Some ''1'', Some ''2'', Some ''x1'']) = Int64Col [1, 2, 1]"
proof -
  have m1: "map match_value [Some ''Alabama'', Some ''Alaska'', Some ''1''] = [[], [], ''1'']"
    by code_simp
  have m2: "map match_value [Some ''1'', Some ''2'', Some ''x1''] = [''1'', ''2'', ''1'']"
    by code_simp
  have d0: "to_double [] = None" by code_simp
  have d1: "to_double ''1'' = Some (IntVal 1)" by code_simp
  have d2: "map to_double [''1'', ''2'', ''1''] = map (\<lambda>k. Some (IntVal k)) [1, 2, 1]"
    by code_simp
  have r1: "length (filter (\<lambda>m. m \<noteq> []) [[], [], ''1''])
      \<le> 2 * length (filter re_numeric (filter (\<lambda>m. m \<noteq> []) [[], [], ''1'']))" by code_simp
  have r2: "length (filter (\<lambda>m. m \<noteq> []) [''1'', ''2'', ''1''])
      \<le> 2 * length (filter re_numeric (filter (\<lambda>m. m \<noteq> []) [''1'', ''2'', ''1'']))" by code_simp
  have n1: "to_numeric L [[], [], ''1''] = Float64Col [None, None, Some (strtod L ''1'')]" for L
    by (simp add: to_numeric_def Let_def d0 d1)
  have n2: "to_numeric L [''1'', ''2'', ''1''] = Int64Col [1, 2, 1]"
    by (rule to_numeric_int64 [OF d2]) (simp add: INT64_MIN_def INT64_MAX_def)
  have c1: "coerce_series L (ObjectCol [Some ''Alabama'', Some ''Alaska'', Some ''1''])
       = Float64Col [None, None, Some (strtod L ''1'')]" for L
    using coerce_series_object [of "[Some ''Alabama'', Some ''Alaska'', Some ''1'']" L] r1 n1 [of L]
    unfolding m1 by simp
  have c2: "coerce_series L (ObjectCol [Some ''1'', Some ''2'', Some ''x1'']) = Int64Col [1, 2, 1]"
    using coerce_series_object [of "[Some ''1'', Some ''2'', Some ''x1'']" L] r2 n2
    unfolding m2 by simp
  have s: "strtod exact_lib ''1'' = Finite 1" by code_simp
  from m1 m2 c1 [of L] c1 [of exact_lib] c2 s show ?thesis by simp
qed

text \<open>
  C5 as stated fails: the column Alabama, Alaska, 1 does not stay a text column.
\<close>

theorem C5_counterexample:
  "\<not> is_text (coerce_series exact_lib (ObjectCol [Some ''Alabama'', Some ''Alaska'', Some ''1'']))"
  by code_simp

section \<open>The row index\<close>



section \<open>Rows and columns\<close>

text \<open>
  C4. For a table that is not empty and whose columns have one cell per row: when the kept
  labels are pairwise different the normalizer returns a table, and every table it returns
  has as many rows as the input, an index entry for each of them, every column as long as
  the input's columns, and no column that is not one of the input's kept columns after
  coercion.
\<close>

theorem C4_rows_preserved:
  assumes "wf_df df" and "\<not> df_empty df"
  shows "(distinct (map fst (kept_columns df)) \<longrightarrow> (\<exists>t. clean_dataframe L df = Inr t))
    \<and> (\<forall>t. clean_dataframe L df = Inr t \<longrightarrow>
           nrows t = nrows df \<and> length (index_values (index t)) = nrows df
           \<and> list_all (\<lambda>(l, c). col_len c = nrows df) (columns t)
           \<and> set (columns t) \<subseteq> set (normalized_columns L df))"
proof (intro conjI allI impI)
  assume "distinct (map fst (kept_columns df))"
  with clean_dataframe_eq [OF assms(2) assms(1), of L] show "\<exists>t. clean_dataframe L df = Inr t"
    by blast
next
  fix t
  assume t: "clean_dataframe L df = Inr t"
  note d = clean_dataframe_Inr(1) [OF t assms(2)]
  note eq = clean_dataframe_eq [OF assms(2) assms(1) d, of L]
  note len = normalized_columns_len [OF assms(1)]
  show "set (columns t) \<subseteq> set (normalized_columns L df)"
    by (rule clean_dataframe_Inr(2) [OF t assms(2)])
  show "nrows t = nrows df"
  proof (cases "find (\<lambda>(l, c). index_like l) (normalized_columns L df)")
    case None
    with eq t show ?thesis by (simp add: nrows_def)
  next
    case (Some a)
    obtain l s where a: "a = (l, s)" by (cases a)
    with Some have "(l, s) \<in> set (normalized_columns L df)" by (auto dest: find_mem)
    with len have "col_len s = nrows df" by (auto simp: list_all_iff)
    with eq t Some a show ?thesis
      by (auto simp: nrows_def length_astype_int is_numeric_to_numeric col_len_to_numeric
          length_astype_str split: if_splits)
  qed
  then show "length (index_values (index t)) = nrows df"
    by (cases "index t") (auto simp: nrows_def)
  show "list_all (\<lambda>(l, c). col_len c = nrows df) (columns t)"
    using eq t len drop_columns_len [OF len]
    by (auto split: option.splits if_splits)
qed

theorem C4_rows_preserved_witness:
  "wf_df ex_population_table \<and> \<not> df_empty ex_population_table
   \<and> nrows ex_population_table = 3
   \<and> clean_dataframe exact_lib ex_population_table =
     Inr \<lparr>columns = [(''State'', ObjectCol [Some ''Ohio'', Some ''Iowa'', Some ''Utah'']),
                      (''Population1'', Float64Col [Some (Finite 1234), Some (Finite 5678), None])],
          index = RangeIndex 1 4\<rparr>
   \<and> nrows \<lparr>columns = [(''State'', ObjectCol [Some ''Ohio'', Some ''Iowa'', Some ''Utah'']),
                      (''Population1'', Float64Col [Some (Finite 1234), Some (Finite 5678), None])],
          index = RangeIndex 1 4\<rparr> = 3"
proof -
  have h1: "wf_df ex_population_table" by code_simp
  have h2: "\<not> df_empty ex_population_table" by code_simp
  have n: "nrows ex_population_table = 3" by code_simp
  have e: "clean_dataframe exact_lib ex_population_table =
     Inr \<lparr>columns = [(''State'', ObjectCol [Some ''Ohio'', Some ''Iowa'', Some ''Utah'']),
                      (''Population1'', Float64Col [Some (Finite 1234), Some (Finite 5678), None])],
          index = RangeIndex 1 4\<rparr>"
    by code_simp
  from C4_rows_preserved [OF h1 h2, of exact_lib] e
  have "nrows \<lparr>columns = [(''State'', ObjectCol [Some ''Ohio'', Some ''Iowa'', Some ''Utah'']),
                      (''Population1'', Float64Col [Some (Finite 1234), Some (Finite 5678), None])],
          index = RangeIndex 1 4\<rparr> = nrows ex_population_table"
    by blast
  with h1 h2 n e show ?thesis by simp
qed

text \<open>
  C9. No label of a table the normalizer returns starts with Unnamed; each label is the
  cleaned label of an input column.
\<close>

theorem C9_no_unnamed_label:
  assumes "clean_dataframe L df = Inr t"
  shows "\<forall>l \<in> fst ` set (columns t).
            \<not> prefix ''Unnamed'' l \<and> l \<in> clean_colname ` fst ` set (columns df)"
proof (cases "df_empty df")
  case True
  with assms show ?thesis by (auto simp: clean_dataframe_empty empty_DataFrame_def)
next
  case False
  from clean_dataframe_Inr(2) [OF assms False]
  have "fst ` set (columns t) \<subseteq> fst ` set (normalized_columns L df)" by auto
  also have "\<dots> = fst ` set (kept_columns df)"
    using labels_normalized [of L df] by (metis set_map)
  finally show ?thesis using kept_labels_not_unnamed [of _ df] by blast
qed

theorem C9_no_unnamed_label_witness:
  "clean_dataframe exact_lib ex_population_table =
     Inr \<lparr>columns = [(''State'', ObjectCol [Some ''Ohio'', Some ''Iowa'', Some ''Utah'']),
                      (''Population1'', Float64Col [Some (Finite 1234), Some (Finite 5678), None])],
          index = RangeIndex 1 4\<rparr>
   \<and> \<not> prefix ''Unnamed'' ''State'' \<and> \<not> prefix ''Unnamed'' ''Population1''"
proof -
  have e: "clean_dataframe exact_lib ex_population_table =
     Inr \<lparr>columns = [(''State'', ObjectCol [Some ''Ohio'', Some ''Iowa'', Some ''Utah'']),
                      (''Population1'', Float64Col [Some (Finite 1234), Some (Finite 5678), None])],
          index = RangeIndex 1 4\<rparr>"
    by code_simp
  from C9_no_unnamed_label [OF e] e show ?thesis by simp
qed

text \<open>
  C10. The label Unnamed: 0 matches the index pattern but is removed with the unnamed
  columns: it is no label of the result, the column the index step picks never has a label
  that starts with Unnamed, and a table all of whose index-like labels start with Unnamed
  gets the index from 1 to the number of rows. The all-lowercase label unnamed: 0 is kept
  and adopted.
\<close>

theorem C10_unnamed_zero:
  assumes "\<not> df_empty df" and "wf_df df" and "clean_dataframe L df = Inr t"
  shows "index_like ''Unnamed: 0'' \<and> prefix ''Unnamed'' (clean_colname ''Unnamed: 0'')
    \<and> ''Unnamed: 0'' \<notin> fst ` set (columns t)
    \<and> (\<forall>l s. find (\<lambda>(l, c). index_like l) (normalized_columns L df) = Some (l, s)
           \<longrightarrow> \<not> prefix ''Unnamed'' l)
    \<and> ((\<forall>l \<in> fst ` set (columns df).
            index_like (clean_colname l) \<longrightarrow> prefix ''Unnamed'' (clean_colname l))
         \<longrightarrow> index t = RangeIndex 1 (int (nrows df) + 1) \<and> columns t = normalized_columns L df)"
proof (intro conjI allI impI)
  show "index_like ''Unnamed: 0''" by code_simp
  show "prefix ''Unnamed'' (clean_colname ''Unnamed: 0'')" by code_simp
  have kl: "fst ` set (normalized_columns L df) = fst ` set (kept_columns df)"
    using labels_normalized [of L df] by (metis set_map)
  have sub: "fst ` set (columns t) \<subseteq> fst ` set (kept_columns df)"
    using clean_dataframe_Inr(2) [OF assms(3) assms(1)] kl by blast
  show "''Unnamed: 0'' \<notin> fst ` set (columns t)"
  proof
    assume "''Unnamed: 0'' \<in> fst ` set (columns t)"
    with sub have "''Unnamed: 0'' \<in> fst ` set (kept_columns df)" by (rule subsetD)
    from kept_labels_not_unnamed [OF this] show False by simp
  qed
next
  fix l s
  assume "find (\<lambda>(l, c). index_like l) (normalized_columns L df) = Some (l, s)"
  then have "(l, s) \<in> set (normalized_columns L df)" by (rule find_mem)
  then have "l \<in> fst ` set (kept_columns df)"
    using labels_normalized [of L df] by (metis fst_conv image_eqI set_map)
  with kept_labels_not_unnamed [of l df] show "\<not> prefix ''Unnamed'' l" by simp
next
  assume a: "\<forall>l \<in> fst ` set (columns df).
            index_like (clean_colname l) \<longrightarrow> prefix ''Unnamed'' (clean_colname l)"
  have "\<forall>l \<in> fst ` set (normalized_columns L df). \<not> index_like l"
  proof
    fix l
    assume "l \<in> fst ` set (normalized_columns L df)"
    then have "l \<in> fst ` set (kept_columns df)"
      using labels_normalized [of L df] by (metis set_map)
    with kept_labels_not_unnamed [of l df] a show "\<not> index_like l" by auto
  qed
  then have n: "find (\<lambda>(l, c). index_like l) (normalized_columns L df) = None"
    by (simp only: find_None_iff_labels)
  note d = clean_dataframe_Inr(1) [OF assms(3) assms(1)]
  from clean_dataframe_eq [OF assms(1) assms(2) d, of L] assms(3) n
  have t: "t = \<lparr>columns = normalized_columns L df, index = RangeIndex 1 (int (nrows df) + 1)\<rparr>"
    by simp
  from t show "index t = RangeIndex 1 (int (nrows df) + 1)" by simp
  from t show "columns t = normalized_columns L df" by simp
qed

theorem C10_unnamed_zero_witness:
  "clean_dataframe exact_lib ex_unnamed_table =
     Inr \<lparr>columns = [(''State'', ObjectCol [Some ''Ohio'', Some ''Iowa'', Some ''Utah''])],
          index = RangeIndex 1 4\<rparr>
   \<and> clean_dataframe exact_lib ex_lower_unnamed_table =
     Inr \<lparr>columns = [(''State'', ObjectCol [Some ''Ohio'', Some ''Iowa'', Some ''Utah''])],
          index = Int64Index [3, 1, 2]\<rparr>"
proof -
  let ?t = "\<lparr>columns = [(''State'', ObjectCol [Some ''Ohio'', Some ''Iowa'', Some ''Utah''])],
          index = RangeIndex 1 4\<rparr>"
  have h1: "\<not> df_empty ex_unnamed_table" by code_simp
  have h2: "wf_df ex_unnamed_table" by code_simp
  have h3: "\<not> df_empty ex_lower_unnamed_table" by code_simp
  have h4: "wf_df ex_lower_unnamed_table" by code_simp
  have h5: "\<forall>l \<in> fst ` set (columns ex_unnamed_table).
            index_like (clean_colname l) \<longrightarrow> prefix ''Unnamed'' (clean_colname l)"
    by code_simp
  have e1: "clean_dataframe exact_lib ex_unnamed_table = Inr ?t" by code_simp
  have e2: "clean_dataframe exact_lib ex_lower_unnamed_table =
     Inr \<lparr>columns = [(''State'', ObjectCol [Some ''Ohio'', Some ''Iowa'', Some ''Utah''])],
          index = Int64Index [3, 1, 2]\<rparr>" by code_simp
  from C10_unnamed_zero [OF h1 h2 e1] h5
  have "index ?t = RangeIndex 1 (int (nrows ex_unnamed_table) + 1)" by blast
  moreover from C10_unnamed_zero [OF h3 h4 e2]
  have "''Unnamed: 0'' \<notin> fst ` set [(''State'', ObjectCol [Some ''Ohio'', Some ''Iowa'', Some ''Utah''])]"
    by simp
  ultimately show ?thesis using e1 e2 by simp
qed

section \<open>Labels that clean to the same string\<close>

text \<open>
  C3. A file that does not exist, or that neither reading attempt can read, gives the empty
  table. A readable file whose headers Nov-15 and 11-15 clean to the same label makes
  \<^verbatim>\<open>load_csv\<close> raise, after the first reading attempt as well as after the retry.
\<close>

theorem C3_load_csv_raises:
  "load_csv L True (Inr ex_age_table) r = Inl AttributeError
   \<and> load_csv L True (Inl e) (Inr ex_age_table) = Inl AttributeError
   \<and> load_csv L False r1 r2 = Inr empty_DataFrame
   \<and> load_csv L True (Inl e1) (Inl e2) = Inr empty_DataFrame"
proof -
  have h1: "\<not> df_empty ex_age_table" by code_simp
  have h2: "\<not> distinct (map fst (kept_columns ex_age_table))" by code_simp
  from clean_dataframe_raises [OF h1 h2, of L] show ?thesis
    by (simp add: load_csv_def)
qed

text \<open>
  C8. The headers a? and a- clean to the same label, and on the table that has them the
  normalizer raises instead of returning a table with both columns.
\<close>

theorem C8_duplicate_labels_raise:
  "clean_colname ''a?'' = ''a-'' \<and> clean_colname ''a-'' = ''a-''
   \<and> clean_dataframe L ex_question_table = Inl AttributeError"
proof -
  have h1: "\<not> df_empty ex_question_table" by code_simp
  have h2: "\<not> distinct (map fst (kept_columns ex_question_table))" by code_simp
  have "clean_colname ''a?'' = ''a-''" by code_simp
  moreover have "clean_colname ''a-'' = ''a-''" by code_simp
  ultimately show ?thesis using clean_dataframe_raises [OF h1 h2, of L] by simp
qed

section \<open>Header cleaning\<close>

text \<open>
  C7. For every label: a line feed is read as a space, the three characters E2 88 92 of
  the dash artifact are read as a minus sign, and the text Nov-15 is read as 11-15, each
  wherever it stands in the label. The cleaned label holds no dash artifact, no line feed
  and no question mark; its only white space is single spaces, and it neither starts nor
  ends with white space; it holds no text Nov-15 when the label had no question mark (the
  question marks are replaced after Nov-15 is, so Nov?15 becomes Nov-15). A label that has
  single spaces only, no white space at its ends, no question mark, no dash artifact and no
  text Nov-15 is returned unchanged. The two headers of the scenarios and the artifact
  substitutions come out as stated.
\<close>

theorem C7_clean_colname:
  "clean_colname (''Victims'' @ [CHR 0x0A] @ ''Age'') = ''Victims Age''
   \<and> clean_colname ''Nov-15'' = ''11-15''
   \<and> clean_colname (''10'' @ [CHR 0xE2, CHR 0x88, CHR 0x92] @ ''14'') = ''10-14''
   \<and> clean_colname (''Nov'' @ [CHR 0xE2, CHR 0x88, CHR 0x92] @ ''15'') = ''11-15''
   \<and> clean_colname ([CHR 0xE2, CHR 0x88, CHR 0x92] @ ''15'') = ''-15''
   \<and> clean_colname ''65? and over'' = ''65- and over''
   \<and> (\<forall>s. single_spaced s \<and> (s = [] \<or> (\<not> isspace (hd s) \<and> \<not> isspace (last s)))
          \<and> CHR ''?'' \<notin> set s \<and> \<not> sublist [CHR 0xE2, CHR 0x88, CHR 0x92] s
          \<and> \<not> sublist ''Nov-15'' s
          \<longrightarrow> clean_colname s = s)
   \<and> (\<forall>s. single_spaced (clean_colname s)
          \<and> CHR 0x0A \<notin> set (clean_colname s)
          \<and> CHR ''?'' \<notin> set (clean_colname s)
          \<and> (clean_colname s = []
              \<or> (\<not> isspace (hd (clean_colname s)) \<and> \<not> isspace (last (clean_colname s)))))
   \<and> (\<forall>s. \<not> sublist [CHR 0xE2, CHR 0x88, CHR 0x92] (clean_colname s))
   \<and> (\<forall>s. CHR ''?'' \<notin> set s \<longrightarrow> \<not> sublist ''Nov-15'' (clean_colname s))
   \<and> (\<forall>u v. clean_colname (u @ [CHR 0x0A] @ v) = clean_colname (u @ '' '' @ v))
   \<and> (\<forall>u v. clean_colname (u @ [CHR 0xE2, CHR 0x88, CHR 0x92] @ v)
              = clean_colname (u @ ''-'' @ v))
   \<and> (\<forall>u v. clean_colname (u @ ''Nov-15'' @ v) = clean_colname (u @ ''11-15'' @ v))
   \<and> clean_colname ''Nov?15'' = ''Nov-15''"
proof (intro conjI allI impI)
  show "clean_colname (''Victims'' @ [CHR 0x0A] @ ''Age'') = ''Victims Age''" by code_simp
  show "clean_colname ''Nov-15'' = ''11-15''" by code_simp
  show "clean_colname (''10'' @ [CHR 0xE2, CHR 0x88, CHR 0x92] @ ''14'') = ''10-14''"
    by code_simp
  show "clean_colname (''Nov'' @ [CHR 0xE2, CHR 0x88, CHR 0x92] @ ''15'') = ''11-15''"
    by code_simp
  show "clean_colname ([CHR 0xE2, CHR 0x88, CHR 0x92] @ ''15'') = ''-15''" by code_simp
  show "clean_colname ''65? and over'' = ''65- and over''" by code_simp
  show "clean_colname ''Nov?15'' = ''Nov-15''" by code_simp
next
  fix s
  assume "single_spaced s \<and> (s = [] \<or> (\<not> isspace (hd s) \<and> \<not> isspace (last s)))
          \<and> CHR ''?'' \<notin> set s \<and> \<not> sublist [CHR 0xE2, CHR 0x88, CHR 0x92] s
          \<and> \<not> sublist ''Nov-15'' s"
  then show "clean_colname s = s"
    by (intro clean_colname_fixed) (simp_all only: dash_artifact_def simp_thms)
next
  fix s
  define a where "a = str_replace ''Nov-15'' ''11-15'' (str_replace (dash_artifact @ ''15'') ''-15''
      (str_replace dash_artifact ''-'' (str_replace [CHR 0x0A] '' '' s)))"
  have cc: "clean_colname s = strip (collapse_ws (str_replace ''?'' ''-'' a))"
    by (simp add: clean_colname_def a_def Let_def)
  show ss: "single_spaced (clean_colname s)"
    unfolding cc by (rule single_spaced_strip [OF single_spaced_collapse_ws])
  show "CHR 0x0A \<notin> set (clean_colname s)"
    using single_spaced_no_ws [OF ss, of "CHR 0x0A"] isspace_LF by auto
  have "CHR ''?'' \<notin> set (str_replace ''?'' ''-'' a)"
    by (rule str_replace_removes_char) simp
  then have "CHR ''?'' \<notin> set (collapse_ws (str_replace ''?'' ''-'' a))"
    using set_collapse_ws [of "str_replace ''?'' ''-'' a"] by auto
  then show "CHR ''?'' \<notin> set (clean_colname s)"
    unfolding cc using set_strip by blast
  show "clean_colname s = []
              \<or> (\<not> isspace (hd (clean_colname s)) \<and> \<not> isspace (last (clean_colname s)))"
    unfolding cc by (rule strip_ends)
next
  fix s
  show "\<not> sublist [CHR 0xE2, CHR 0x88, CHR 0x92] (clean_colname s)"
    by (rule clean_colname_no_artifact)
next
  fix s
  assume "CHR ''?'' \<notin> set s"
  then show "\<not> sublist ''Nov-15'' (clean_colname s)" by (rule clean_colname_no_nov15)
next
  fix u v
  show "clean_colname (u @ [CHR 0x0A] @ v) = clean_colname (u @ '' '' @ v)"
    by (rule clean_colname_line_feed)
  show "clean_colname (u @ [CHR 0xE2, CHR 0x88, CHR 0x92] @ v) = clean_colname (u @ ''-'' @ v)"
    by (rule clean_colname_artifact)
  show "clean_colname (u @ ''Nov-15'' @ v) = clean_colname (u @ ''11-15'' @ v)"
    by (rule clean_colname_nov15)
qed

theorem C7_clean_colname_witness:
  "clean_colname (''  Victims'' @ [CHR 0x0A, CHR 0x0A] @ ''Age? '') = ''Victims Age-''
   \<and> single_spaced ''Victims Age-''
   \<and> clean_colname ''Victims Age-'' = ''Victims Age-''
   \<and> CHR ''?'' \<notin> set (''Nov'' @ [CHR 0xE2, CHR 0x88, CHR 0x92] @ ''15'')
   \<and> \<not> sublist ''Nov-15'' (clean_colname (''Nov'' @ [CHR 0xE2, CHR 0x88, CHR 0x92] @ ''15''))"
proof -
  have e: "clean_colname (''  Victims'' @ [CHR 0x0A, CHR 0x0A] @ ''Age? '') = ''Victims Age-''"
    by code_simp
  note c = C7_clean_colname [THEN conjunct2, THEN conjunct2, THEN conjunct2, THEN conjunct2,
      THEN conjunct2, THEN conjunct2]
  from c [THEN conjunct2, THEN conjunct1, THEN spec,
      of "''  Victims'' @ [CHR 0x0A, CHR 0x0A] @ ''Age? ''"]
  have s: "single_spaced ''Victims Age-''" unfolding e by (rule conjunct1)
  have h: "single_spaced ''Victims Age-''
      \<and> (''Victims Age-'' = [] \<or> (\<not> isspace (hd ''Victims Age-'') \<and> \<not> isspace (last ''Victims Age-'')))
      \<and> CHR ''?'' \<notin> set ''Victims Age-''
      \<and> \<not> sublist [CHR 0xE2, CHR 0x88, CHR 0x92] ''Victims Age-''
      \<and> \<not> sublist ''Nov-15'' ''Victims Age-''"
    by code_simp
  have q: "CHR ''?'' \<notin> set (''Nov'' @ [CHR 0xE2, CHR 0x88, CHR 0x92] @ ''15'')" by code_simp
  from c [THEN conjunct2, THEN conjunct2, THEN conjunct2, THEN conjunct1, THEN spec, THEN mp, OF q]
  have n: "\<not> sublist ''Nov-15'' (clean_colname (''Nov'' @ [CHR 0xE2, CHR 0x88, CHR 0x92] @ ''15''))" .
  from c [THEN conjunct1, THEN spec, THEN mp, OF h] e s q n show ?thesis by (intro conjI)
qed

section \<open>A second pass\<close>




end
